theory Spec2Isabelle
  imports Complex_Main "HOL-Library.Monad_Syntax"
begin

section \<open>Data model\<close>

text \<open>
  The program keeps its working fields in global \<^verbatim>\<open>double **\<close> matrices addressed as
  \<^verbatim>\<open>topo[i][j]\<close> with \<^verbatim>\<open>int\<close> indices.  A matrix is modelled as a total function on index
  pairs; an assignment \<^verbatim>\<open>m[i][j] = v\<close> is a function update.  The values of the C types
  \<^verbatim>\<open>double\<close> and \<^verbatim>\<open>float\<close> are modelled as \<^typ>\<open>real\<close>; infinities and NaN are outside the
  model.  Arithmetic is exact, with one exception: in \<^verbatim>\<open>VICcalculation\<close> the number of wetland
  bins, the target fraction and the test that closes a bin depend on single-precision
  results at ties of the exact values, and there every result is rounded as IEEE 754
  prescribes.  Index arithmetic never leaves the \<^verbatim>\<open>int\<close> range for grids that fit in memory,
  so \<^verbatim>\<open>int\<close> is modelled as \<^typ>\<open>int\<close>.
\<close>

type_synonym grid = "int \<times> int \<Rightarrow> real"

text \<open>The four global index vectors \<^verbatim>\<open>iup\<close>, \<^verbatim>\<open>idown\<close>, \<^verbatim>\<open>jup\<close>, \<^verbatim>\<open>jdown\<close>.\<close>

record neighbors =
  iup :: "int \<Rightarrow> int"
  idown :: "int \<Rightarrow> int"
  jup :: "int \<Rightarrow> int"
  jdown :: "int \<Rightarrow> int"

text \<open>
  The global matrices of the flow-routing stage: the filled elevation \<^verbatim>\<open>topo\<close>, the
  accumulated flow \<^verbatim>\<open>flow\<close> and the eight outflow fractions \<^verbatim>\<open>flow1\<close> .. \<^verbatim>\<open>flow8\<close>.
  They are indexed \<^verbatim>\<open>[i][j]\<close> with \<open>i\<close> the column (\<open>1..lattice_size_x\<close>) and \<open>j\<close> the
  row (\<open>1..lattice_size_y\<close>).
\<close>

record lattice =
  topo :: grid
  flow :: grid
  flow1 :: grid
  flow2 :: grid
  flow3 :: grid
  flow4 :: grid
  flow5 :: grid
  flow6 :: grid
  flow7 :: grid
  flow8 :: grid

definition fillincrement :: real where
  "fillincrement = 0.01"

definition oneoversqrt2 :: real where
  "oneoversqrt2 = 0.707106781187"

definition VERTRES :: real where
  "VERTRES = 2.3"

definition OUTSIDEBASIN :: real where
  "OUTSIDEBASIN = - 99"

definition WETLANDTHRESH :: real where
  "WETLANDTHRESH = 13552"

definition WATERTHRESH :: real where
  "WATERTHRESH = 216623"

section \<open>Neighbor topology: \<^verbatim>\<open>setupgridneighbors\<close>\<close>

text \<open>
  One pass of \<^verbatim>\<open>for (i=1;i<=n;i++) { down[i]=i-1; up[i]=i+1; }\<close> over a pair of vectors.
\<close>

definition fill_updown :: "int \<Rightarrow> (int \<Rightarrow> int) \<times> (int \<Rightarrow> int) \<Rightarrow> (int \<Rightarrow> int) \<times> (int \<Rightarrow> int)" where
  "fill_updown n = fold (\<lambda>i (down, up). (down(i := i - 1), up(i := i + 1))) [1..n]"

text \<open>
  The vectors come from \<^verbatim>\<open>ivector\<close> (\<^verbatim>\<open>malloc\<close>), so their initial content is indeterminate;
  the model starts from \<open>0\<close>.  Every later read is at an index in \<open>1..size\<close>, which the loop
  has written.  After each loop the two edge entries are overwritten.
\<close>

definition setupgridneighbors :: "int \<Rightarrow> int \<Rightarrow> neighbors" where
  "setupgridneighbors lattice_size_x lattice_size_y =
     (let (idown0, iup0) = fill_updown lattice_size_x (\<lambda>_. 0, \<lambda>_. 0);
          idown1 = idown0(1 := 1);
          iup1 = iup0(lattice_size_x := lattice_size_x);
          (jdown0, jup0) = fill_updown lattice_size_y (\<lambda>_. 0, \<lambda>_. 0);
          jdown1 = jdown0(1 := 1);
          jup1 = jup0(lattice_size_y := lattice_size_y)
      in \<lparr>iup = iup1, idown = idown1, jup = jup1, jdown = jdown1\<rparr>)"

section \<open>Sink and flat elimination: \<^verbatim>\<open>fillinpitsandflats\<close>\<close>

text \<open>
  The eight clamped neighbors of \<open>(i, j)\<close>, in the order in which \<^verbatim>\<open>fillinpitsandflats\<close>
  compares them and recurses into them.
\<close>

definition fill_neighbors :: "neighbors \<Rightarrow> int \<Rightarrow> int \<Rightarrow> (int \<times> int) list" where
  "fill_neighbors nb i j =
     [(iup nb i, j), (idown nb i, j), (i, jup nb j), (i, jdown nb j),
      (iup nb i, jup nb j), (idown nb i, jup nb j),
      (idown nb i, jdown nb j), (iup nb i, jdown nb j)]"

text \<open>One statement \<^verbatim>\<open>if (topo[c] < min && topo[c] != nodata) min = topo[c];\<close>.\<close>

definition lower_min :: "real \<Rightarrow> grid \<Rightarrow> int \<times> int \<Rightarrow> real \<Rightarrow> real" where
  "lower_min nodata tp c m = (if tp c < m \<and> tp c \<noteq> nodata then tp c else m)"

text \<open>
  The local \<^verbatim>\<open>min\<close> after the nine statements.  It starts from the cell's own value.  For a
  nodata cell the C local is not assigned before the comparisons; the guard
  \<^verbatim>\<open>topo[i][j] != nodata\<close> of the raise makes the outcome independent of it, so the model
  starts from the cell value there as well.
\<close>

definition pit_min :: "neighbors \<Rightarrow> real \<Rightarrow> grid \<Rightarrow> int \<Rightarrow> int \<Rightarrow> real" where
  "pit_min nb nodata tp i j = fold (lower_min nodata tp) (fill_neighbors nb i j) (tp (i, j))"

text \<open>
  The values that stay fixed through the recursion: the global index vectors and the
  parameters \<^verbatim>\<open>lattice_size_x\<close>, \<^verbatim>\<open>lattice_size_y\<close>, \<^verbatim>\<open>nodata\<close>.
\<close>

record fill_env =
  env_nb :: neighbors
  env_size_x :: int
  env_size_y :: int
  env_nodata :: real

text \<open>The guard of the raise.\<close>

definition is_pit :: "fill_env \<Rightarrow> grid \<Rightarrow> int \<Rightarrow> int \<Rightarrow> bool" where
  "is_pit e tp i j \<longleftrightarrow>
     tp (i, j) \<le> pit_min (env_nb e) (env_nodata e) tp i j \<and> tp (i, j) \<noteq> env_nodata e \<and>
     i > 1 \<and> j > 1 \<and> i < env_size_x e \<and> j < env_size_y e"

text \<open>
  The recursion of the source, on the matrix \<^verbatim>\<open>topo\<close>.  The C recursion has no bound, so
  the function is partial: \<open>None\<close> stands for a call that never returns.
\<close>

partial_function (option) fillinpitsandflats ::
  "fill_env \<Rightarrow> int \<Rightarrow> int \<Rightarrow> grid \<Rightarrow> grid option" where
  "fillinpitsandflats e i j tp =
     (if is_pit e tp i j then
        do {
          t0 \<leftarrow> fillinpitsandflats e i j
                  (tp((i, j) := pit_min (env_nb e) (env_nodata e) tp i j + fillincrement));
          t1 \<leftarrow> fillinpitsandflats e (iup (env_nb e) i) j t0;
          t2 \<leftarrow> fillinpitsandflats e (idown (env_nb e) i) j t1;
          t3 \<leftarrow> fillinpitsandflats e i (jup (env_nb e) j) t2;
          t4 \<leftarrow> fillinpitsandflats e i (jdown (env_nb e) j) t3;
          t5 \<leftarrow> fillinpitsandflats e (iup (env_nb e) i) (jup (env_nb e) j) t4;
          t6 \<leftarrow> fillinpitsandflats e (idown (env_nb e) i) (jup (env_nb e) j) t5;
          t7 \<leftarrow> fillinpitsandflats e (idown (env_nb e) i) (jdown (env_nb e) j) t6;
          fillinpitsandflats e (iup (env_nb e) i) (jdown (env_nb e) j) t7
        }
      else Some tp)"

definition fill_env_of :: "int \<Rightarrow> int \<Rightarrow> real \<Rightarrow> fill_env" where
  "fill_env_of lattice_size_x lattice_size_y nodata =
     \<lparr>env_nb = setupgridneighbors lattice_size_x lattice_size_y,
      env_size_x = lattice_size_x, env_size_y = lattice_size_y, env_nodata = nodata\<rparr>"

text \<open>
  The cells in the order of the loops \<^verbatim>\<open>for (j=1;j<=lattice_size_y;j++) for (i=1;i<=lattice_size_x;i++)\<close>
  of \<^verbatim>\<open>fillin\<close>.
\<close>

definition sweep_cells :: "int \<Rightarrow> int \<Rightarrow> (int \<times> int) list" where
  "sweep_cells lattice_size_x lattice_size_y =
     concat (map (\<lambda>j. map (\<lambda>i. (i, j)) [1..lattice_size_x]) [1..lattice_size_y])"

text \<open>The second double loop of \<^verbatim>\<open>fillin\<close>: one call per cell, each on the result of the previous one.\<close>

fun fill_pass :: "fill_env \<Rightarrow> (int \<times> int) list \<Rightarrow> grid \<Rightarrow> grid option" where
  "fill_pass e [] tp = Some tp"
| "fill_pass e ((i, j) # cs) tp =
     (case fillinpitsandflats e i j tp of None \<Rightarrow> None | Some t \<Rightarrow> fill_pass e cs t)"

text \<open>
  The relation between the matrix before and after calls on the cells \<open>cs\<close>, as used in
  the proofs: no entry decreases, entries outside the interior are unchanged, and every
  cell that satisfies the guard of the raise afterwards satisfied it before and is none of
  \<open>cs\<close>.
\<close>

definition fill_post :: "fill_env \<Rightarrow> (int \<times> int) list \<Rightarrow> grid \<Rightarrow> grid \<Rightarrow> bool" where
  "fill_post e cs tp tp' \<longleftrightarrow>
     (\<forall>c. tp c \<le> tp' c) \<and>
     (\<forall>a b. \<not> (1 < a \<and> a < env_size_x e \<and> 1 < b \<and> b < env_size_y e) \<longrightarrow> tp' (a, b) = tp (a, b)) \<and>
     (\<forall>a b. is_pit e tp' a b \<longrightarrow> is_pit e tp a b \<and> (a, b) \<notin> set cs)"

text \<open>
  A \<open>3 \<times> 3\<close> DEM whose centre \<^verbatim>\<open>dem[1][1]\<close> holds \<open>5\<close> and whose other cells are nodata
  (\<open>-9999\<close>), and the matrix \<^verbatim>\<open>topo\<close> that \<^verbatim>\<open>fillin\<close> copies from it after \<open>k\<close> raises of the
  centre.
\<close>

definition dem_isolated :: grid where
  "dem_isolated = (\<lambda>_. - 9999)((1, 1) := 5)"

definition isolated_cell :: "nat \<Rightarrow> grid" where
  "isolated_cell k = (\<lambda>_. - 9999)((2, 2) := 5 + real k * fillincrement)"


text \<open>A flat \<open>3 \<times> 3\<close> test grid and its filled form.\<close>

definition flat3 :: grid where
  "flat3 = (\<lambda>_. 5)"

definition flat3_filled :: grid where
  "flat3_filled = (\<lambda>_. 5)((2, 2) := 5.01)"

text \<open>
  What makes the recursion return.  \<open>V\<close> is the set of the valid cells and \<open>rank\<close> a number
  for every cell such that every interior cell of \<open>V\<close> has a neighbor in \<open>V\<close> of smaller
  rank: following such neighbors leads out of the interior, so every valid interior cell is
  linked to the border ring through valid cells.
\<close>

definition fill_ranked :: "fill_env \<Rightarrow> (int \<times> int) set \<Rightarrow> (int \<times> int \<Rightarrow> nat) \<Rightarrow> bool" where
  "fill_ranked e V rank \<longleftrightarrow>
     (\<forall>i j. 1 < i \<and> i < env_size_x e \<and> 1 < j \<and> j < env_size_y e \<and> (i, j) \<in> V \<longrightarrow>
        (\<exists>c \<in> set (fill_neighbors (env_nb e) i j). c \<in> V \<and> rank c < rank (i, j)))"

text \<open>
  The invariant of the recursion: the cells of \<open>V\<close> stay above the nodata value and below
  the bound \<open>H + rank * fillincrement\<close>, and every valid interior cell is in \<open>V\<close>.
\<close>

definition fill_inv :: "fill_env \<Rightarrow> (int \<times> int) set \<Rightarrow> (int \<times> int \<Rightarrow> nat) \<Rightarrow> real \<Rightarrow> grid \<Rightarrow> bool" where
  "fill_inv e V rank H tp \<longleftrightarrow>
     (\<forall>c \<in> V. env_nodata e < tp c \<and> tp c \<le> H + real (rank c) * fillincrement) \<and>
     (\<forall>i j. 1 < i \<and> i < env_size_x e \<and> 1 < j \<and> j < env_size_y e \<and> tp (i, j) \<noteq> env_nodata e \<longrightarrow>
        (i, j) \<in> V)"

text \<open>The number of raises that the bound still allows, summed over \<open>V\<close>.\<close>

definition fill_room :: "(int \<times> int \<Rightarrow> nat) \<Rightarrow> real \<Rightarrow> grid \<Rightarrow> int \<times> int \<Rightarrow> nat" where
  "fill_room rank H tp c = nat \<lfloor>(H + real (rank c) * fillincrement - tp c) / fillincrement\<rfloor>"

definition fill_measure :: "(int \<times> int) set \<Rightarrow> (int \<times> int \<Rightarrow> nat) \<Rightarrow> real \<Rightarrow> grid \<Rightarrow> nat" where
  "fill_measure V rank H tp = (\<Sum>c \<in> V. fill_room rank H tp c)"

section \<open>Index sort: \<^verbatim>\<open>indexx\<close>\<close>

text \<open>
  \<^verbatim>\<open>indexx(n, arr, indx)\<close> fills \<^verbatim>\<open>indx[1..n]\<close> with a permutation of \<open>1..n\<close> that orders
  \<^verbatim>\<open>arr\<close>.  Its counters are \<^verbatim>\<open>unsigned long\<close>; they are modelled as \<^typ>\<open>nat\<close>, with the
  wrap-around of a subtraction or decrement written out.  The vectors are functions on
  \<^typ>\<open>nat\<close>.
\<close>

definition ulong_sub :: "nat \<Rightarrow> nat \<Rightarrow> nat" where
  "ulong_sub a b = nat ((int a - int b) mod 2 ^ 64)"

definition ulong_add :: "nat \<Rightarrow> nat \<Rightarrow> nat" where
  "ulong_add a b = (a + b) mod 2 ^ 64"

definition SWAP :: "nat \<Rightarrow> nat \<Rightarrow> (nat \<Rightarrow> nat) \<Rightarrow> (nat \<Rightarrow> nat)" where
  "SWAP a b indx = (let itemp = indx a; indx = indx(a := indx b) in indx(b := itemp))"

text \<open>
  The inner loop of the insertion sort,
  \<^verbatim>\<open>for (i=j-1;i>=1;i--) { if (arr[indx[i]] <= a) break; indx[i+1]=indx[i]; }\<close>,
  started at \<open>i\<close>; it returns the final \<open>i\<close> and the vector.
\<close>

fun insert_scan :: "(nat \<Rightarrow> real) \<Rightarrow> real \<Rightarrow> nat \<Rightarrow> (nat \<Rightarrow> nat) \<Rightarrow> nat \<times> (nat \<Rightarrow> nat)" where
  "insert_scan arr a 0 indx = (0, indx)"
| "insert_scan arr a (Suc i) indx =
     (if arr (indx (Suc i)) \<le> a then (Suc i, indx)
      else insert_scan arr a i (indx(Suc i + 1 := indx (Suc i))))"

text \<open>The body of \<^verbatim>\<open>for (j=l+1;j<=ir;j++)\<close>.\<close>

definition insert_one :: "(nat \<Rightarrow> real) \<Rightarrow> nat \<Rightarrow> (nat \<Rightarrow> nat) \<Rightarrow> (nat \<Rightarrow> nat)" where
  "insert_one arr j indx =
     (let indxt = indx j;
          a = arr indxt;
          (i, indx) = insert_scan arr a (j - 1) indx
      in indx(i + 1 := indxt))"

definition insertion_pass :: "(nat \<Rightarrow> real) \<Rightarrow> nat \<Rightarrow> nat \<Rightarrow> (nat \<Rightarrow> nat) \<Rightarrow> (nat \<Rightarrow> nat)" where
  "insertion_pass arr l ir indx = fold (insert_one arr) [l + 1 ..< ir + 1] indx"

text \<open>
  The two scans \<^verbatim>\<open>do i++; while (arr[indx[i]] < a);\<close> and
  \<^verbatim>\<open>do j--; while (arr[indx[j]] > a);\<close>.  The source has no bound on them.
\<close>

partial_function (option) scan_up :: "(nat \<Rightarrow> real) \<Rightarrow> real \<Rightarrow> (nat \<Rightarrow> nat) \<Rightarrow> nat \<Rightarrow> nat option" where
  "scan_up arr a indx i =
     (let i = ulong_add i 1 in if arr (indx i) < a then scan_up arr a indx i else Some i)"

partial_function (option) scan_down :: "(nat \<Rightarrow> real) \<Rightarrow> real \<Rightarrow> (nat \<Rightarrow> nat) \<Rightarrow> nat \<Rightarrow> nat option" where
  "scan_down arr a indx j =
     (let j = ulong_sub j 1 in if arr (indx j) > a then scan_down arr a indx j else Some j)"

text \<open>The inner \<^verbatim>\<open>for (;;)\<close> of the partition; it returns \<open>i\<close>, \<open>j\<close> and the vector.\<close>

partial_function (option) partition_loop ::
  "(nat \<Rightarrow> real) \<Rightarrow> real \<Rightarrow> nat \<times> nat \<Rightarrow> (nat \<Rightarrow> nat) \<Rightarrow> (nat \<times> nat \<times> (nat \<Rightarrow> nat)) option" where
  "partition_loop arr a ij indx =
     do {
       i \<leftarrow> scan_up arr a indx (fst ij);
       j \<leftarrow> scan_down arr a indx (snd ij);
       if j < i then Some (i, j, indx)
       else partition_loop arr a (i, j) (SWAP i j indx)
     }"

record indexx_state =
  ix_indx :: "nat \<Rightarrow> nat"
  ix_istack :: "nat \<Rightarrow> nat"
  ix_jstack :: nat
  ix_l :: nat
  ix_ir :: nat

text \<open>The constant \<^verbatim>\<open>M\<close>: subarrays shorter than this are sorted by insertion.\<close>

definition M_indexx :: nat where
  "M_indexx = 7"

text \<open>The outer \<^verbatim>\<open>for (;;)\<close>.\<close>

partial_function (option) indexx_loop :: "(nat \<Rightarrow> real) \<Rightarrow> indexx_state \<Rightarrow> (nat \<Rightarrow> nat) option" where
  "indexx_loop arr st =
     (let indx = ix_indx st; istack = ix_istack st; jstack = ix_jstack st; l = ix_l st; ir = ix_ir st in
      if ulong_sub ir l < M_indexx then
        (let indx = insertion_pass arr l ir indx in
         if jstack = 0 then Some indx
         else indexx_loop arr
                \<lparr>ix_indx = indx, ix_istack = istack, ix_jstack = jstack - 2,
                 ix_l = istack (jstack - 1), ix_ir = istack jstack\<rparr>)
      else
        (let k = (l + ir) div 2;
             indx = SWAP k (l + 1) indx;
             indx = (if arr (indx (l + 1)) > arr (indx ir) then SWAP (l + 1) ir indx else indx);
             indx = (if arr (indx l) > arr (indx ir) then SWAP l ir indx else indx);
             indx = (if arr (indx (l + 1)) > arr (indx l) then SWAP (l + 1) l indx else indx);
             indxt = indx l;
             a = arr indxt
         in do {
              (i, j, indx) \<leftarrow> partition_loop arr a (l + 1, ir) indx;
              let indx = indx(l := indx j);
              let indx = indx(j := indxt);
              let jstack = jstack + 2;
              if ulong_add (ulong_sub ir i) 1 \<ge> ulong_sub j l then
                indexx_loop arr
                  \<lparr>ix_indx = indx, ix_istack = istack(jstack := ir, jstack - 1 := i),
                   ix_jstack = jstack, ix_l = l, ix_ir = ulong_sub j 1\<rparr>
              else
                indexx_loop arr
                  \<lparr>ix_indx = indx, ix_istack = istack(jstack := ulong_sub j 1, jstack - 1 := l),
                   ix_jstack = jstack, ix_l = i, ix_ir = ir\<rparr>
            }))"

text \<open>
  \<^verbatim>\<open>indexx\<close>: \<^verbatim>\<open>for (j=1;j<=n;j++) indx[j]=j;\<close>, then the loop with \<open>l = 1\<close>, \<open>ir = n\<close> and
  an empty stack.  The vectors are allocated by \<^verbatim>\<open>ivector\<close>; entries the loop has not written
  read as \<open>0\<close> in the model.
\<close>

definition indexx :: "nat \<Rightarrow> (nat \<Rightarrow> real) \<Rightarrow> (nat \<Rightarrow> nat) option" where
  "indexx n arr =
     indexx_loop arr
       \<lparr>ix_indx = fold (\<lambda>j indx. indx(j := j)) [1 ..< n + 1] (\<lambda>_. 0),
        ix_istack = (\<lambda>_. 0), ix_jstack = 0, ix_l = 1, ix_ir = n\<rparr>"

section \<open>Multiple-flow-direction routing: \<^verbatim>\<open>mfdflowroute\<close>\<close>

text \<open>The guard \<^verbatim>\<open>topo[i][j] > topo[p] && topo[p] != nodata\<close> for a neighbor \<open>p\<close> of \<open>c = (i, j)\<close>.\<close>

definition lower_valid :: "real \<Rightarrow> grid \<Rightarrow> int \<times> int \<Rightarrow> int \<times> int \<Rightarrow> bool" where
  "lower_valid nodata tp c p \<longleftrightarrow> tp c > tp p \<and> tp p \<noteq> nodata"

text \<open>
  \<^verbatim>\<open>pow(x, 1.1)\<close>.  Every call in \<^verbatim>\<open>mfdflowroute\<close> is guarded by a positive drop, where
  C's \<^verbatim>\<open>pow\<close> is the real power.
\<close>

definition pow11 :: "real \<Rightarrow> real" where
  "pow11 x = x powr 1.1"

text \<open>The local \<^verbatim>\<open>tot\<close> after its eight conditional increments.\<close>

definition mfd_tot :: "neighbors \<Rightarrow> real \<Rightarrow> grid \<Rightarrow> int \<Rightarrow> int \<Rightarrow> real" where
  "mfd_tot nb nodata tp i j =
     (let c = (i, j);
          tot = 0;
          tot = (if lower_valid nodata tp c (iup nb i, j)
                 then tot + pow11 (tp c - tp (iup nb i, j)) else tot);
          tot = (if lower_valid nodata tp c (idown nb i, j)
                 then tot + pow11 (tp c - tp (idown nb i, j)) else tot);
          tot = (if lower_valid nodata tp c (i, jup nb j)
                 then tot + pow11 (tp c - tp (i, jup nb j)) else tot);
          tot = (if lower_valid nodata tp c (i, jdown nb j)
                 then tot + pow11 (tp c - tp (i, jdown nb j)) else tot);
          tot = (if lower_valid nodata tp c (iup nb i, jup nb j)
                 then tot + pow11 ((tp c - tp (iup nb i, jup nb j)) * oneoversqrt2) else tot);
          tot = (if lower_valid nodata tp c (iup nb i, jdown nb j)
                 then tot + pow11 ((tp c - tp (iup nb i, jdown nb j)) * oneoversqrt2) else tot);
          tot = (if lower_valid nodata tp c (idown nb i, jup nb j)
                 then tot + pow11 ((tp c - tp (idown nb i, jup nb j)) * oneoversqrt2) else tot);
          tot = (if lower_valid nodata tp c (idown nb i, jdown nb j)
                 then tot + pow11 ((tp c - tp (idown nb i, jdown nb j)) * oneoversqrt2) else tot)
      in tot)"

text \<open>
  The first half of \<^verbatim>\<open>mfdflowroute\<close>: the assignments to \<^verbatim>\<open>flow1[i][j]\<close> .. \<^verbatim>\<open>flow8[i][j]\<close>.
\<close>

definition mfd_fractions :: "neighbors \<Rightarrow> int \<Rightarrow> int \<Rightarrow> real \<Rightarrow> lattice \<Rightarrow> lattice" where
  "mfd_fractions nb i j nodata s =
     (let tp = topo s; c = (i, j) in
      if tp c = nodata then
        s\<lparr>flow1 := (flow1 s)(c := 0), flow2 := (flow2 s)(c := 0),
          flow3 := (flow3 s)(c := 0), flow4 := (flow4 s)(c := 0),
          flow5 := (flow5 s)(c := 0), flow6 := (flow6 s)(c := 0),
          flow7 := (flow7 s)(c := 0), flow8 := (flow8 s)(c := 0)\<rparr>
      else
        (let tot = mfd_tot nb nodata tp i j in
         s\<lparr>flow1 := (flow1 s)(c := if lower_valid nodata tp c (iup nb i, j)
                       then pow11 (tp c - tp (iup nb i, j)) / tot else 0),
           flow2 := (flow2 s)(c := if lower_valid nodata tp c (idown nb i, j)
                       then pow11 (tp c - tp (idown nb i, j)) / tot else 0),
           flow3 := (flow3 s)(c := if lower_valid nodata tp c (i, jup nb j)
                       then pow11 (tp c - tp (i, jup nb j)) / tot else 0),
           flow4 := (flow4 s)(c := if lower_valid nodata tp c (i, jdown nb j)
                       then pow11 (tp c - tp (i, jdown nb j)) / tot else 0),
           flow5 := (flow5 s)(c := if lower_valid nodata tp c (iup nb i, jup nb j)
                       then pow11 ((tp c - tp (iup nb i, jup nb j)) * oneoversqrt2) / tot else 0),
           flow6 := (flow6 s)(c := if lower_valid nodata tp c (iup nb i, jdown nb j)
                       then pow11 ((tp c - tp (iup nb i, jdown nb j)) * oneoversqrt2) / tot else 0),
           flow7 := (flow7 s)(c := if lower_valid nodata tp c (idown nb i, jup nb j)
                       then pow11 ((tp c - tp (idown nb i, jup nb j)) * oneoversqrt2) / tot else 0),
           flow8 := (flow8 s)(c := if lower_valid nodata tp c (idown nb i, jdown nb j)
                       then pow11 ((tp c - tp (idown nb i, jdown nb j)) * oneoversqrt2) / tot else 0)\<rparr>))"

text \<open>One statement \<^verbatim>\<open>flow[p] += flow[i][j]*flowk[i][j];\<close> with \<open>c = (i, j)\<close>.\<close>

definition route_to :: "int \<times> int \<Rightarrow> (lattice \<Rightarrow> grid) \<Rightarrow> int \<times> int \<Rightarrow> lattice \<Rightarrow> lattice" where
  "route_to p flowk c s = s\<lparr>flow := (flow s)(p := flow s p + flow s c * flowk s c)\<rparr>"

definition mfdflowroute :: "neighbors \<Rightarrow> int \<Rightarrow> int \<Rightarrow> real \<Rightarrow> lattice \<Rightarrow> lattice" where
  "mfdflowroute nb i j nodata s =
     (let c = (i, j);
          s = mfd_fractions nb i j nodata s;
          s = route_to (iup nb i, j) flow1 c s;
          s = route_to (idown nb i, j) flow2 c s;
          s = route_to (i, jup nb j) flow3 c s;
          s = route_to (i, jdown nb j) flow4 c s;
          s = route_to (iup nb i, jup nb j) flow5 c s;
          s = route_to (iup nb i, jdown nb j) flow6 c s;
          s = route_to (idown nb i, jup nb j) flow7 c s;
          s = route_to (idown nb i, jdown nb j) flow8 c s
      in s)"

section \<open>Fill and route: \<^verbatim>\<open>fillin\<close>\<close>

text \<open>
  The decoding of a position \<open>k\<close> of \<^verbatim>\<open>topovec\<close> into \<open>(i, j)\<close> in the \<^verbatim>\<open>while\<close> loop of
  \<^verbatim>\<open>fillin\<close>.  Both operands of \<^verbatim>\<open>%\<close> and \<^verbatim>\<open>/\<close> are positive there, so C's truncating
  operators agree with \<open>mod\<close> and \<open>div\<close>.
\<close>

definition route_cell :: "int \<Rightarrow> int \<Rightarrow> int \<times> int" where
  "route_cell lattice_size_x k =
     (let i = k mod lattice_size_x;
          i = (if i = 0 then lattice_size_x else i);
          j = k div lattice_size_x + 1;
          j = (if i = lattice_size_x then j - 1 else j)
      in (i, j))"

text \<open>The \<^verbatim>\<open>while (t>1)\<close> loop: \<open>t\<close> runs from \<open>n\<close> down to \<open>1\<close>.\<close>

definition route_sweep :: "neighbors \<Rightarrow> int \<Rightarrow> real \<Rightarrow> (nat \<Rightarrow> nat) \<Rightarrow> nat \<Rightarrow> lattice \<Rightarrow> lattice" where
  "route_sweep nb lattice_size_x nodata topovecind n =
     fold (\<lambda>t s. case route_cell lattice_size_x (int (topovecind t)) of
                    (i, j) \<Rightarrow> mfdflowroute nb i j nodata s)
          (rev [1 ..< n + 1])"

text \<open>\<^verbatim>\<open>topovec[(j-1)*lattice_size_x+i] = topo[i][j]\<close> for all cells.\<close>

definition topovec_of :: "int \<Rightarrow> int \<Rightarrow> grid \<Rightarrow> nat \<Rightarrow> real" where
  "topovec_of lattice_size_x lattice_size_y tp =
     fold (\<lambda>(i, j) v. v(nat ((j - 1) * lattice_size_x + i) := tp (i, j)))
          (sweep_cells lattice_size_x lattice_size_y) (\<lambda>_. 0)"

text \<open>
  The matrices at the start of the routing sweep: \<^verbatim>\<open>flow[i][j] = deltax*deltay\<close> for every
  cell, nodata or not.  The matrices \<^verbatim>\<open>flow1\<close> .. \<^verbatim>\<open>flow8\<close> are allocated without
  initialisation; the model starts them at \<open>0\<close>, and every entry is written before it is
  read.
\<close>

definition start_lattice :: "grid \<Rightarrow> real \<Rightarrow> real \<Rightarrow> lattice" where
  "start_lattice tp deltax deltay =
     \<lparr>topo = tp, flow = (\<lambda>_. deltax * deltay),
      flow1 = (\<lambda>_. 0), flow2 = (\<lambda>_. 0), flow3 = (\<lambda>_. 0), flow4 = (\<lambda>_. 0),
      flow5 = (\<lambda>_. 0), flow6 = (\<lambda>_. 0), flow7 = (\<lambda>_. 0), flow8 = (\<lambda>_. 0)\<rparr>"

text \<open>
  \<^verbatim>\<open>fillin\<close>: copy the DEM (\<^verbatim>\<open>topo[i][j] = dem[j-1][i-1]\<close>), start every cell's flow at
  \<^verbatim>\<open>deltax*deltay\<close>, fill, sort the elevations and route from the highest cell down.  The
  result is \<open>None\<close> when the fill or the sort does not return.
\<close>

definition fillin :: "grid \<Rightarrow> int \<Rightarrow> int \<Rightarrow> real \<Rightarrow> real \<Rightarrow> real \<Rightarrow> lattice option" where
  "fillin dem lattice_size_x lattice_size_y deltax deltay nodata =
     (let nb = setupgridneighbors lattice_size_x lattice_size_y;
          n = nat (lattice_size_x * lattice_size_y)
      in do {
        tp \<leftarrow> fill_pass (fill_env_of lattice_size_x lattice_size_y nodata)
                (sweep_cells lattice_size_x lattice_size_y) (\<lambda>(i, j). dem (j - 1, i - 1));
        topovecind \<leftarrow> indexx n (topovec_of lattice_size_x lattice_size_y tp);
        Some (route_sweep nb lattice_size_x nodata topovecind n (start_lattice tp deltax deltay))
      })"

text \<open>The sum of a matrix over the cells \<open>1..lattice_size_x \<times> 1..lattice_size_y\<close>.\<close>

definition grid_total :: "int \<Rightarrow> int \<Rightarrow> grid \<Rightarrow> real" where
  "grid_total lattice_size_x lattice_size_y g =
     (\<Sum>c \<leftarrow> sweep_cells lattice_size_x lattice_size_y. g c)"

section \<open>Invariants of \<^verbatim>\<open>indexx\<close>\<close>

text \<open>The entries \<open>1..n\<close> of an index vector are positions of \<open>1..n\<close>.\<close>

definition index_range :: "nat \<Rightarrow> (nat \<Rightarrow> nat) \<Rightarrow> bool" where
  "index_range n indx \<longleftrightarrow> (\<forall>p. 1 \<le> p \<and> p \<le> n \<longrightarrow> 1 \<le> indx p \<and> indx p \<le> n)"

text \<open>
  The invariant of the partition loop at its head, for the subarray \<open>l..ir\<close> and the
  partitioning element \<open>a\<close>: position \<open>i\<close> holds an element that is not above \<open>a\<close>, position
  \<open>j\<close> one that is not below \<open>a\<close>, and when the two positions have met the same holds next
  to them.  These are the sentinels that stop the two scans inside \<open>l+1..ir\<close>.
\<close>

definition part_inv :: "(nat \<Rightarrow> real) \<Rightarrow> real \<Rightarrow> nat \<Rightarrow> nat \<Rightarrow> nat \<Rightarrow> nat \<Rightarrow> (nat \<Rightarrow> nat) \<Rightarrow> bool" where
  "part_inv arr a l ir i j indx \<longleftrightarrow>
     l + 1 \<le> i \<and> i \<le> j \<and> j \<le> ir \<and> ir + 1 < 2 ^ 64 \<and>
     \<not> arr (indx i) > a \<and> \<not> arr (indx j) < a \<and>
     (i = j \<longrightarrow> l + 1 \<le> i - 1 \<and> j + 1 \<le> ir \<and>
                \<not> arr (indx (i - 1)) > a \<and> \<not> arr (indx (j + 1)) < a)"

text \<open>
  The stack holds pairs \<open>(l, ir)\<close> of pending subarrays at the positions \<open>2k-1\<close> and \<open>2k\<close>.
  \<open>stack_size\<close> is the number of their elements.
\<close>

definition stack_ok :: "nat \<Rightarrow> (nat \<Rightarrow> nat) \<Rightarrow> nat \<Rightarrow> bool" where
  "stack_ok n istack jstack \<longleftrightarrow>
     even jstack \<and>
     (\<forall>k. 1 \<le> k \<and> 2 * k \<le> jstack \<longrightarrow>
        1 \<le> istack (2 * k - 1) \<and> istack (2 * k - 1) \<le> istack (2 * k) \<and> istack (2 * k) \<le> n)"

definition stack_size :: "(nat \<Rightarrow> nat) \<Rightarrow> nat \<Rightarrow> nat" where
  "stack_size istack jstack = (\<Sum>k = 1 ..< jstack div 2 + 1. istack (2 * k) - istack (2 * k - 1) + 1)"

definition ix_inv :: "nat \<Rightarrow> indexx_state \<Rightarrow> bool" where
  "ix_inv n st \<longleftrightarrow>
     1 \<le> ix_l st \<and> ix_l st \<le> ix_ir st \<and> ix_ir st \<le> n \<and> n + 1 < 2 ^ 64 \<and>
     stack_ok n (ix_istack st) (ix_jstack st) \<and> index_range n (ix_indx st)"

definition ix_measure :: "indexx_state \<Rightarrow> nat" where
  "ix_measure st = (ix_ir st - ix_l st + 1) + stack_size (ix_istack st) (ix_jstack st)"

text \<open>The vector after the median-of-three exchanges that precede a partition.\<close>

definition median_swaps :: "(nat \<Rightarrow> real) \<Rightarrow> nat \<Rightarrow> nat \<Rightarrow> (nat \<Rightarrow> nat) \<Rightarrow> (nat \<Rightarrow> nat)" where
  "median_swaps arr l ir indx =
     (let k = (l + ir) div 2;
          indx = SWAP k (l + 1) indx;
          indx = (if arr (indx (l + 1)) > arr (indx ir) then SWAP (l + 1) ir indx else indx);
          indx = (if arr (indx l) > arr (indx ir) then SWAP l ir indx else indx);
          indx = (if arr (indx (l + 1)) > arr (indx l) then SWAP (l + 1) l indx else indx)
      in indx)"

section \<open>The outflow fractions by direction\<close>

text \<open>
  The eight neighbors of a cell, named after the index vectors that reach them, in the
  order of \<^verbatim>\<open>flow1\<close> .. \<^verbatim>\<open>flow8\<close>.
\<close>

datatype direction = Iup | Idown | Jup | Jdown | IupJup | IupJdown | IdownJup | IdownJdown

definition directions :: "direction list" where
  "directions = [Iup, Idown, Jup, Jdown, IupJup, IupJdown, IdownJup, IdownJdown]"

fun neighbor_cell :: "neighbors \<Rightarrow> int \<Rightarrow> int \<Rightarrow> direction \<Rightarrow> int \<times> int" where
  "neighbor_cell nb i j Iup = (iup nb i, j)"
| "neighbor_cell nb i j Idown = (idown nb i, j)"
| "neighbor_cell nb i j Jup = (i, jup nb j)"
| "neighbor_cell nb i j Jdown = (i, jdown nb j)"
| "neighbor_cell nb i j IupJup = (iup nb i, jup nb j)"
| "neighbor_cell nb i j IupJdown = (iup nb i, jdown nb j)"
| "neighbor_cell nb i j IdownJup = (idown nb i, jup nb j)"
| "neighbor_cell nb i j IdownJdown = (idown nb i, jdown nb j)"

fun fraction_of :: "direction \<Rightarrow> lattice \<Rightarrow> grid" where
  "fraction_of Iup = flow1"
| "fraction_of Idown = flow2"
| "fraction_of Jup = flow3"
| "fraction_of Jdown = flow4"
| "fraction_of IupJup = flow5"
| "fraction_of IupJdown = flow6"
| "fraction_of IdownJup = flow7"
| "fraction_of IdownJdown = flow8"

fun diagonal :: "direction \<Rightarrow> bool" where
  "diagonal Iup = False"
| "diagonal Idown = False"
| "diagonal Jup = False"
| "diagonal Jdown = False"
| "diagonal IupJup = True"
| "diagonal IupJdown = True"
| "diagonal IdownJup = True"
| "diagonal IdownJdown = True"

text \<open>
  The slope proxy that \<^verbatim>\<open>mfdflowroute\<close> uses for direction \<open>d\<close>: the drop to the power
  \<open>1.1\<close> for an axis-aligned neighbor, the drop times \<^verbatim>\<open>oneoversqrt2\<close> to the power \<open>1.1\<close>
  for a diagonal one, and \<open>0\<close> when the neighbor is not strictly lower or is nodata.
\<close>

definition unit_proxy :: "neighbors \<Rightarrow> real \<Rightarrow> grid \<Rightarrow> int \<Rightarrow> int \<Rightarrow> direction \<Rightarrow> real" where
  "unit_proxy nb nodata tp i j d =
     (if lower_valid nodata tp (i, j) (neighbor_cell nb i j d)
      then pow11 ((tp (i, j) - tp (neighbor_cell nb i j d)) * (if diagonal d then oneoversqrt2 else 1))
      else 0)"

text \<open>
  The slope proxy as the specification words it: the drop divided by the metric distance
  to the neighbor (\<open>deltax\<close> along \<open>i\<close>, \<open>deltay\<close> along \<open>j\<close>, the Euclidean diagonal
  otherwise), to the power \<open>1.1\<close>; and the fraction obtained by normalising the eight
  proxies by their sum.
\<close>

definition neighbor_distance :: "real \<Rightarrow> real \<Rightarrow> direction \<Rightarrow> real" where
  "neighbor_distance deltax deltay d =
     (if diagonal d then sqrt (deltax ^ 2 + deltay ^ 2)
      else if d = Iup \<or> d = Idown then deltax else deltay)"

definition spec_proxy :: "real \<Rightarrow> real \<Rightarrow> neighbors \<Rightarrow> real \<Rightarrow> grid \<Rightarrow> int \<Rightarrow> int \<Rightarrow> direction \<Rightarrow> real" where
  "spec_proxy deltax deltay nb nodata tp i j d =
     (if lower_valid nodata tp (i, j) (neighbor_cell nb i j d)
      then pow11 ((tp (i, j) - tp (neighbor_cell nb i j d)) / neighbor_distance deltax deltay d)
      else 0)"

definition spec_fraction :: "real \<Rightarrow> real \<Rightarrow> neighbors \<Rightarrow> real \<Rightarrow> grid \<Rightarrow> int \<Rightarrow> int \<Rightarrow> direction \<Rightarrow> real" where
  "spec_fraction deltax deltay nb nodata tp i j d =
     spec_proxy deltax deltay nb nodata tp i j d /
       (\<Sum>d' \<leftarrow> directions. spec_proxy deltax deltay nb nodata tp i j d')"

text \<open>
  A \<open>3 \<times> 3\<close> lattice whose centre \<open>(2, 2)\<close> has elevation \<open>2\<close>, whose neighbors \<open>(3, 2)\<close>
  and \<open>(2, 3)\<close> have elevation \<open>1\<close> and whose other cells have elevation \<open>2\<close>.
\<close>

definition two_lower :: lattice where
  "two_lower =
     \<lparr>topo = (\<lambda>_. 2)((3, 2) := 1, (2, 3) := 1), flow = (\<lambda>_. 1),
      flow1 = (\<lambda>_. 0), flow2 = (\<lambda>_. 0), flow3 = (\<lambda>_. 0), flow4 = (\<lambda>_. 0),
      flow5 = (\<lambda>_. 0), flow6 = (\<lambda>_. 0), flow7 = (\<lambda>_. 0), flow8 = (\<lambda>_. 0)\<rparr>"


section \<open>Grid totals of the accumulated flow\<close>

text \<open>
  The total of \<^verbatim>\<open>flow\<close> over the grid after \<^verbatim>\<open>fillin\<close>, and the quantity the specification
  compares it with: the sum of the cell area \<open>deltax * deltay\<close> over the cells of the DEM
  that are not nodata.
\<close>

definition total_flow :: "grid \<Rightarrow> int \<Rightarrow> int \<Rightarrow> real \<Rightarrow> real \<Rightarrow> real \<Rightarrow> real option" where
  "total_flow dem lattice_size_x lattice_size_y deltax deltay nodata =
     map_option (\<lambda>s. grid_total lattice_size_x lattice_size_y (flow s))
       (fillin dem lattice_size_x lattice_size_y deltax deltay nodata)"

definition active_area :: "grid \<Rightarrow> int \<Rightarrow> int \<Rightarrow> real \<Rightarrow> real \<Rightarrow> real \<Rightarrow> real" where
  "active_area dem lattice_size_x lattice_size_y deltax deltay nodata =
     (\<Sum>(i, j) \<leftarrow> sweep_cells lattice_size_x lattice_size_y.
        if dem (j - 1, i - 1) \<noteq> nodata then deltax * deltay else 0)"

text \<open>A DEM of one row and two columns: \<^verbatim>\<open>dem[0][0] = 2\<close>, \<^verbatim>\<open>dem[0][1] = 1\<close>.\<close>

definition dem21 :: grid where
  "dem21 = (\<lambda>_. 0)((0, 0) := 2, (0, 1) := 1)"

section \<open>Wetness index: the first loop of \<^verbatim>\<open>Topindex\<close>\<close>

text \<open>
  \<^verbatim>\<open>Topindex\<close> addresses its matrices as \<^verbatim>\<open>dem[y][x]\<close> with \<open>y\<close> the row (\<open>0..rows-1\<close>) and
  \<open>x\<close> the column (\<open>0..columns-1\<close>); a matrix is again a function on the pair \<open>(y, x)\<close>.
\<close>

definition xneighbor :: "int list" where
  "xneighbor = [- 1, 0, 1, 1, 1, 0, - 1, - 1]"

definition yneighbor :: "int list" where
  "yneighbor = [1, 1, 1, 0, - 1, - 1, - 1, 0]"

text \<open>
  The matrices that the first loop writes and its three \<^verbatim>\<open>float\<close> counters \<^verbatim>\<open>waterVeg\<close>,
  \<^verbatim>\<open>wetlandVeg\<close> and \<^verbatim>\<open>totalVeg\<close>.
\<close>

record wetness =
  tanbeta :: grid
  tanbeta_pixel :: grid
  contour_length :: grid
  wetnessindex :: grid
  waterVeg_cells :: real
  wetlandVeg_cells :: real
  totalVeg_cells :: real

text \<open>The state after \<^verbatim>\<open>Memoryalloc\<close> (\<^verbatim>\<open>calloc\<close>) and the initialisation of the counters.\<close>

definition wetness0 :: wetness where
  "wetness0 =
     \<lparr>tanbeta = (\<lambda>_. 0), tanbeta_pixel = (\<lambda>_. 0), contour_length = (\<lambda>_. 0),
      wetnessindex = (\<lambda>_. 0), waterVeg_cells = 0, wetlandVeg_cells = 0, totalVeg_cells = 0\<rparr>"

text \<open>
  \<^verbatim>\<open>neighbor_elev[n]\<close> as the second inner loop reads it: the value of the neighbor when it
  is inside the grid and not nodata, and \<^verbatim>\<open>nodata\<close> otherwise (through the sentinel
  \<^verbatim>\<open>OUTSIDEBASIN\<close>).
\<close>

definition neighbor_elev :: "grid \<Rightarrow> int \<Rightarrow> int \<Rightarrow> real \<Rightarrow> int \<Rightarrow> int \<Rightarrow> nat \<Rightarrow> real" where
  "neighbor_elev dem columns rows nodata x y n =
     (let xn = x + xneighbor ! n;
          yn = y + yneighbor ! n;
          v = OUTSIDEBASIN;
          v = (if xn \<ge> 0 \<and> yn \<ge> 0 \<and> xn < columns \<and> yn < rows
               then (if dem (yn, xn) \<noteq> nodata then dem (yn, xn) else OUTSIDEBASIN)
               else v)
      in if v = OUTSIDEBASIN then nodata else v)"

text \<open>
  One round of the second inner loop on the triple
  (\<^verbatim>\<open>contour_length[y][x]\<close>, \<^verbatim>\<open>tanbeta[y][x]\<close>, \<^verbatim>\<open>lower\<close>), for neighbor \<open>n\<close> with
  elevation \<open>ne\<close>.
\<close>

definition slope_step :: "real \<Rightarrow> real \<Rightarrow> real \<Rightarrow> real \<Rightarrow> real \<Rightarrow> real \<Rightarrow> nat \<Rightarrow>
    real \<times> real \<times> nat \<Rightarrow> real \<times> real \<times> nat" where
  "slope_step dx dy length_diagonal nodata celev ne n acc =
     (case acc of (cl, tb, lower) \<Rightarrow>
        if ne < celev \<and> ne \<noteq> nodata then
          (if n = 0 \<or> n = 2 \<or> n = 4 \<or> n = 6 then
             (let temp_slope = (celev - ne) / length_diagonal
              in (cl + (0.2 * dx + 0.2 * dy), tb + temp_slope * (0.2 * dx + 0.2 * dy), lower + 1))
           else if n = 1 \<or> n = 5 then
             (let temp_slope = (celev - ne) / dy
              in (cl + 0.6 * dx, tb + temp_slope * 0.6 * dx, lower + 1))
           else if n = 3 \<or> n = 7 then
             (let temp_slope = (celev - ne) / dx
              in (cl + 0.6 * dy, tb + temp_slope * 0.6 * dy, lower + 1))
           else (cl, tb, lower + 1))
        else (cl, tb, lower))"

text \<open>The triple after the loop \<^verbatim>\<open>for (n = 0; n < NNEIGHBORS; n++)\<close>, started with \<^verbatim>\<open>lower = 0\<close>.\<close>

definition slope_sums :: "grid \<Rightarrow> int \<Rightarrow> int \<Rightarrow> real \<Rightarrow> real \<Rightarrow> real \<Rightarrow> int \<Rightarrow> int \<Rightarrow>
    real \<Rightarrow> real \<Rightarrow> real \<times> real \<times> nat" where
  "slope_sums dem columns rows dx dy nodata x y cl0 tb0 =
     fold (\<lambda>n. slope_step dx dy (sqrt (dx ^ 2 + dy ^ 2)) nodata (dem (y, x))
                  (neighbor_elev dem columns rows nodata x y n) n)
          [0 ..< 8] (cl0, tb0, 0)"

text \<open>
  The minimum \<^verbatim>\<open>tan(beta)\<close>:
  \<^verbatim>\<open>(4.*((0.5*VERTRES)/length_diagonal) + (2.0*((0.5*VERTRES)/dx)) + (2.0*((0.5*VERTRES)/dy)))/NNEIGHBORS\<close>.
\<close>

definition tanbeta_floor :: "real \<Rightarrow> real \<Rightarrow> real" where
  "tanbeta_floor dx dy =
     (4 * ((0.5 * VERTRES) / sqrt (dx ^ 2 + dy ^ 2)) +
      (2.0 * ((0.5 * VERTRES) / dx)) + (2.0 * ((0.5 * VERTRES) / dy))) / 8"

text \<open>The body of the loop over \<^verbatim>\<open>OrderedCellsDEM\<close> for the cell \<open>(y, x)\<close>.\<close>

definition topindex_cell :: "grid \<Rightarrow> grid \<Rightarrow> int \<Rightarrow> int \<Rightarrow> real \<Rightarrow> real \<Rightarrow> real \<Rightarrow>
    int \<times> int \<Rightarrow> wetness \<Rightarrow> wetness" where
  "topindex_cell dem flowacc columns rows deltax deltay nodata yx w =
     (case yx of (y, x) \<Rightarrow>
      case slope_sums dem columns rows deltax deltay nodata x y (contour_length w yx) (tanbeta w yx) of
        (cl, tb, lower) \<Rightarrow>
      let (tb, tbp, cl) =
            (if lower = 0
             then (tanbeta_floor deltax deltay, tanbeta_floor deltax deltay, 2 * deltax + 2 * deltay)
             else (tb, tb / cl, cl / real lower));
          tbp = (if tbp < tanbeta_floor deltax deltay then tanbeta_floor deltax deltay else tbp);
          wi = flowacc yx / (cl * tbp);
          water = (if wi \<ge> WATERTHRESH then waterVeg_cells w + 1 else waterVeg_cells w);
          wetland = (if \<not> wi \<ge> WATERTHRESH \<and> wi \<ge> WETLANDTHRESH \<and> wi < WATERTHRESH
                     then wetlandVeg_cells w + 1 else wetlandVeg_cells w);
          total = (if wi \<noteq> nodata then totalVeg_cells w + 1 else totalVeg_cells w)
      in \<lparr>tanbeta = (tanbeta w)(yx := tb), tanbeta_pixel = (tanbeta_pixel w)(yx := tbp),
          contour_length = (contour_length w)(yx := cl), wetnessindex = (wetnessindex w)(yx := wi),
          waterVeg_cells = water, wetlandVeg_cells = wetland, totalVeg_cells = total\<rparr>)"

text \<open>
  The loop \<^verbatim>\<open>for (k = count-1; k > -1; k--)\<close>.  Its argument \<open>cells\<close> is the content
  \<open>(y, x)\<close> of the array \<^verbatim>\<open>OrderedCellsDEM[0..count-1]\<close> after \<^verbatim>\<open>quick\<close>: the active cells in
  ascending order of elevation.  The loop body does not depend on that order, and the
  properties below hold for every content of the array.
\<close>

definition Topindex_loop :: "grid \<Rightarrow> grid \<Rightarrow> int \<Rightarrow> int \<Rightarrow> real \<Rightarrow> real \<Rightarrow> real \<Rightarrow>
    (int \<times> int) list \<Rightarrow> wetness \<Rightarrow> wetness" where
  "Topindex_loop dem flowacc columns rows deltax deltay nodata cells =
     fold (topindex_cell dem flowacc columns rows deltax deltay nodata) (rev cells)"

text \<open>A \<open>2 \<times> 2\<close> DEM with one high cell, for cell sizes \<open>3\<close> and \<open>4\<close>.\<close>

definition dem22 :: grid where
  "dem22 = (\<lambda>_. 10)((0, 0) := 20)"



section \<open>Lake and wetland profile: \<^verbatim>\<open>VICcalculation\<close>\<close>

text \<open>
  The argument \<^verbatim>\<open>VIC\<close> is read as \<^verbatim>\<open>VIC[r][i]\<close> with \<open>r\<close> in \<open>0..4\<close> and \<open>i\<close> in \<open>0..n-1\<close>; it is
  a function of \<open>r\<close> and \<open>i\<close>.  The local matrix \<^verbatim>\<open>WetlandBin[r][k]\<close> is a function on pairs
  \<open>(r, k)\<close>, the vectors \<^verbatim>\<open>AREASUM\<close>, \<^verbatim>\<open>DEMSUM\<close>, \<^verbatim>\<open>BATHSUM\<close>, \<^verbatim>\<open>SLOPE\<close>, \<^verbatim>\<open>TWI\<close> are functions
  on \<^typ>\<open>nat\<close>.  All of them come from \<^verbatim>\<open>calloc\<close> and start at zero.  Allocation is assumed to
  succeed.
\<close>

text \<open>The lake component: \<^verbatim>\<open>LakeBins\<close>, \<^verbatim>\<open>LakeDepth\<close> and \<^verbatim>\<open>LakeArea\<close>.\<close>

definition lake_bins :: "real \<Rightarrow> int \<Rightarrow> real \<Rightarrow> real \<Rightarrow> nat \<times> real \<times> real" where
  "lake_bins waterVeg totalVeg deltax deltay =
     (if waterVeg > 0.0 then
        (let LakeBins = 4;
             LakeArea = waterVeg * real_of_int totalVeg * deltax * deltay / (1000 * 1000);
             LakeDepth = (if LakeArea < 40.9375 then 7.04 - 0.07 * LakeArea else 4.17)
         in (LakeBins, LakeDepth, LakeArea))
      else (0, 0.0, 0.0))"

text \<open>
  \<^verbatim>\<open>wetlandVeg\<close> and \<^verbatim>\<open>areacriteria\<close> are \<^verbatim>\<open>float\<close>, so the quotients that give the number of
  wetland bins and the new target are single-precision results, and the loop compares them
  with a double-precision quotient.  An exact result \<open>x\<close> is rounded to the nearest number
  with a significand of \<open>p\<close> bits, ties to the even significand, as IEEE 754 prescribes
  (\<open>p = 24\<close> for \<^verbatim>\<open>float\<close>, \<open>p = 53\<close> for \<^verbatim>\<open>double\<close>); the exponent range is not modelled, so
  there is no overflow and there are no subnormal numbers.
\<close>

definition round_half_even :: "real \<Rightarrow> int" where
  "round_half_even y =
     (let f = \<lfloor>y\<rfloor> in
      if y - of_int f < 1 / 2 then f
      else if y - of_int f > 1 / 2 then f + 1
      else if even f then f else f + 1)"

definition round_to :: "nat \<Rightarrow> real \<Rightarrow> real" where
  "round_to p x =
     (if x = 0 then 0
      else (let e = \<lfloor>log 2 \<bar>x\<bar>\<rfloor>;
                u = 2 powr (of_int e - real (p - 1))
            in of_int (round_half_even (x / u)) * u))"

definition to_float :: "real \<Rightarrow> real" where
  "to_float = round_to 24"

definition to_double :: "real \<Rightarrow> real" where
  "to_double = round_to 53"

text \<open>
  The wetland component: \<^verbatim>\<open>WetBins\<close> and the local \<^verbatim>\<open>float areacriteria\<close>, which starts as the
  constant \<^verbatim>\<open>0.091\<close> of type \<^verbatim>\<open>double\<close> converted to \<^verbatim>\<open>float\<close>.  Both quotients have \<^verbatim>\<open>float\<close>
  operands (\<^verbatim>\<open>WetBins\<close> is converted, exactly) and a \<^verbatim>\<open>float\<close> result.  The cast
  \<^verbatim>\<open>(int) ceil(...)\<close> is applied to a positive value.
\<close>

definition wet_bins :: "real \<Rightarrow> nat \<times> real" where
  "wet_bins wetlandVeg =
     (let areacriteria = to_float (to_double 0.091);
          WetBins = 0
      in if wetlandVeg > 0.0 then
           (let WetBins = nat \<lceil>to_float (wetlandVeg / areacriteria)\<rceil>;
                WetBins = (if WetBins < 5 then 5 else WetBins);
                areacriteria = to_float (wetlandVeg / real WetBins)
            in (WetBins, areacriteria))
         else (WetBins, areacriteria))"

text \<open>The state of the binning loop: \<^verbatim>\<open>WetlandBin\<close>, \<^verbatim>\<open>counter\<close> and \<^verbatim>\<open>cnt\<close>.\<close>

record bins =
  WetlandBin :: "nat \<times> nat \<Rightarrow> real"
  bin_counter :: nat
  bin_cnt :: nat

definition bins0 :: bins where
  "bins0 = \<lparr>WetlandBin = (\<lambda>_. 0), bin_counter = 0, bin_cnt = 0\<rparr>"

text \<open>
  One round of \<^verbatim>\<open>for (i = 0; i < n; i++)\<close>.  Each row of \<^verbatim>\<open>WetlandBin\<close> has \<^verbatim>\<open>WetBins\<close> entries;
  a round that would write at \<^verbatim>\<open>counter >= WetBins\<close> writes past the end of the rows, which
  the model reports as \<open>None\<close>.  The flag \<open>sea\<close> is \<^verbatim>\<open>strcmp(option,"SEA")==0\<close>.  The quotient
  \<^verbatim>\<open>WetlandBin[0][counter]/totalVeg\<close> of the closing test and of the stored area fraction is a
  \<^verbatim>\<open>double\<close> result; the count in \<^verbatim>\<open>WetlandBin[0][counter]\<close> is exact.
\<close>

definition bin_step :: "(nat \<Rightarrow> nat \<Rightarrow> real) \<Rightarrow> nat \<Rightarrow> bool \<Rightarrow> int \<Rightarrow> real \<Rightarrow> nat \<Rightarrow> nat \<Rightarrow> bins \<Rightarrow> bins option" where
  "bin_step VIC n sea totalVeg areacriteria WetBins i b =
     (let counter = bin_counter b in
      if counter \<ge> WetBins then None
      else
        (let ROWS = (if sea then 5 else 2);
             W = WetlandBin b;
             W = W((0, counter) := W (0, counter) + 1);
             W = (if sea then
                    (let W = W((1, counter) := W (1, counter) + VIC 1 i);
                         W = W((2, counter) := W (2, counter) + VIC 2 i)
                     in W((3, counter) := W (3, counter) + VIC 3 i))
                  else W);
             W = W((ROWS - 1, counter) := VIC 4 i);
             cnt = bin_cnt b + 1
         in if to_double (W (0, counter) / real_of_int totalVeg) \<ge> areacriteria \<or> i = n - 1 then
              (let W = W((0, counter) := to_double (W (0, counter) / real_of_int totalVeg));
                   W = (if sea then fold (\<lambda>j W. W((j, counter) := W (j, counter) / real cnt)) [1 ..< ROWS - 1] W
                        else W)
               in Some \<lparr>WetlandBin = W, bin_counter = counter + 1, bin_cnt = 0\<rparr>)
            else Some \<lparr>WetlandBin = W, bin_counter = counter, bin_cnt = cnt\<rparr>))"

fun bin_loop :: "(nat \<Rightarrow> nat \<Rightarrow> real) \<Rightarrow> nat \<Rightarrow> bool \<Rightarrow> int \<Rightarrow> real \<Rightarrow> nat \<Rightarrow> nat list \<Rightarrow> bins \<Rightarrow> bins option" where
  "bin_loop VIC n sea totalVeg areacriteria WetBins [] b = Some b"
| "bin_loop VIC n sea totalVeg areacriteria WetBins (i # is) b =
     (case bin_step VIC n sea totalVeg areacriteria WetBins i b of
        None \<Rightarrow> None
      | Some b' \<Rightarrow> bin_loop VIC n sea totalVeg areacriteria WetBins is b')"

text \<open>The whole binning loop, from the zeroed matrix.\<close>

definition wetland_bins :: "(nat \<Rightarrow> nat \<Rightarrow> real) \<Rightarrow> nat \<Rightarrow> bool \<Rightarrow> int \<Rightarrow> real \<Rightarrow> nat \<Rightarrow> bins option" where
  "wetland_bins VIC n sea totalVeg areacriteria WetBins =
     bin_loop VIC n sea totalVeg areacriteria WetBins [0 ..< n] bins0"

text \<open>The area fractions of the closed bins, \<^verbatim>\<open>WetlandBin[0][0 .. counter-1]\<close>.\<close>

definition bin_areas :: "bins \<Rightarrow> real list" where
  "bin_areas b = map (\<lambda>k. WetlandBin b (0, k)) [0 ..< bin_counter b]"

text \<open>The profile vectors.\<close>

record profile =
  AREASUM :: "nat \<Rightarrow> real"
  DEMSUM :: "nat \<Rightarrow> real"
  BATHSUM :: "nat \<Rightarrow> real"
  SLOPE :: "nat \<Rightarrow> real"
  TWI :: "nat \<Rightarrow> real"

definition profile0 :: profile where
  "profile0 = \<lparr>AREASUM = (\<lambda>_. 0), DEMSUM = (\<lambda>_. 0), BATHSUM = (\<lambda>_. 0), SLOPE = (\<lambda>_. 0), TWI = (\<lambda>_. 0)\<rparr>"

text \<open>One round of \<^verbatim>\<open>for(i=1; i<= LakeBins; i++)\<close>.\<close>

definition lake_step :: "(nat \<Rightarrow> nat \<Rightarrow> real) \<Rightarrow> bool \<Rightarrow> real \<Rightarrow> real \<Rightarrow> nat \<Rightarrow> nat \<Rightarrow> profile \<Rightarrow> profile" where
  "lake_step VIC sea waterVeg LakeDepth LakeBins i p =
     (let D = (DEMSUM p)(i := DEMSUM p (i - 1) + (LakeDepth / real LakeBins));
          B = (BATHSUM p)(i := BATHSUM p (i - 1) + (LakeDepth / real LakeBins));
          A = (AREASUM p)(i := waterVeg * sqrt (D i / LakeDepth))
      in \<lparr>AREASUM = A, DEMSUM = D, BATHSUM = B,
          SLOPE = (if sea then (SLOPE p)(i := VIC 2 0) else SLOPE p),
          TWI = (if sea then (TWI p)(i := VIC 1 0) else TWI p)\<rparr>)"

text \<open>One round of the loop \<^verbatim>\<open>TWI[i] = WetlandBin[1][i-(LakeBins+1)]\<close> of the SEA schema.\<close>

definition twi_step :: "(nat \<times> nat \<Rightarrow> real) \<Rightarrow> nat \<Rightarrow> nat \<Rightarrow> profile \<Rightarrow> profile" where
  "twi_step W LakeBins i p = p\<lparr>TWI := (TWI p)(i := W (1, i - (LakeBins + 1)))\<rparr>"

text \<open>
  The divisor \<^verbatim>\<open>VIC[1][0]-WetlandBin[1][WetBins-1]\<close> of the elevation rescaling in the SEA
  schema.
\<close>

definition sea_divisor :: "(nat \<Rightarrow> nat \<Rightarrow> real) \<Rightarrow> (nat \<times> nat \<Rightarrow> real) \<Rightarrow> nat \<Rightarrow> real" where
  "sea_divisor VIC W WetBins = VIC 1 0 - W (1, WetBins - 1)"

text \<open>One round of the loop over the wetland portion, \<open>i = LakeBins+1 .. WetBins+LakeBins\<close>.\<close>

definition wetland_step :: "(nat \<Rightarrow> nat \<Rightarrow> real) \<Rightarrow> (nat \<times> nat \<Rightarrow> real) \<Rightarrow> bool \<Rightarrow> real \<Rightarrow> nat \<Rightarrow> nat \<Rightarrow> nat \<Rightarrow> profile \<Rightarrow> profile" where
  "wetland_step VIC W sea ElevRange LakeBins WetBins i p =
     (let ROWS = (if sea then 5 else 2);
          k = i - (LakeBins + 1);
          A = (AREASUM p)(i := AREASUM p (i - 1) + W (0, k));
          B = (if i > 1 then (BATHSUM p)(i := W (ROWS - 1, k) - VIC 4 0 + BATHSUM p LakeBins)
               else (BATHSUM p)(i := W (ROWS - 1, k) - VIC 4 0))
      in if sea then
           \<lparr>AREASUM = A,
            DEMSUM = (if i > 1
                      then (DEMSUM p)(i := B LakeBins +
                              ElevRange * (VIC 1 0 - W (1, k)) / sea_divisor VIC W WetBins)
                      else (DEMSUM p)(i := ElevRange)),
            BATHSUM = B, SLOPE = (SLOPE p)(i := W (2, k)), TWI = TWI p\<rparr>
         else
           \<lparr>AREASUM = A, DEMSUM = (DEMSUM p)(i := B i), BATHSUM = B, SLOPE = SLOPE p, TWI = TWI p\<rparr>)"

text \<open>
  The profile vectors at the consistency check.  The sums \<^verbatim>\<open>Vsum\<close> and \<^verbatim>\<open>Bathsum\<close> that the
  SEA schema computes next are never read and are left out.
\<close>

definition build_profile :: "(nat \<Rightarrow> nat \<Rightarrow> real) \<Rightarrow> (nat \<times> nat \<Rightarrow> real) \<Rightarrow> bool \<Rightarrow> real \<Rightarrow> real \<Rightarrow> real \<Rightarrow> nat \<Rightarrow> nat \<Rightarrow> profile" where
  "build_profile VIC W sea waterVeg ElevRange LakeDepth LakeBins WetBins =
     (let p = fold (lake_step VIC sea waterVeg LakeDepth LakeBins) [1 ..< LakeBins + 1] profile0;
          p = (if sea then fold (twi_step W LakeBins) [LakeBins + 1 ..< WetBins + LakeBins + 1] p else p)
      in fold (wetland_step VIC W sea ElevRange LakeBins WetBins) [LakeBins + 1 ..< WetBins + LakeBins + 1] p)"




text \<open>A \<^verbatim>\<open>VIC\<close> array that holds zeros.\<close>

definition VIC0 :: "nat \<Rightarrow> nat \<Rightarrow> real" where
  "VIC0 = (\<lambda>_ _. 0)"


text \<open>
  Two invariants of the binning loop, for a target fraction \<open>ac\<close> and a cell total \<open>T\<close>.
  The open bin holds the count of its cells, and no count up to it has a quotient that
  reaches the target; the bins after it are untouched.  Every closed bin holds the quotient
  of a count \<open>m\<close> of at least one cell that reaches the target, while no smaller count does.
\<close>

definition bins_open_ok :: "real \<Rightarrow> int \<Rightarrow> bins \<Rightarrow> bool" where
  "bins_open_ok ac T b \<longleftrightarrow>
     WetlandBin b (0, bin_counter b) = real (bin_cnt b) \<and>
     (\<forall>m'. 1 \<le> m' \<and> m' \<le> bin_cnt b \<longrightarrow> to_double (real m' / real_of_int T) < ac) \<and>
     (\<forall>k > bin_counter b. WetlandBin b (0, k) = 0)"

definition bins_closed_ok :: "real \<Rightarrow> int \<Rightarrow> bins \<Rightarrow> bool" where
  "bins_closed_ok ac T b \<longleftrightarrow>
     (\<forall>k < bin_counter b. \<exists>m \<ge> 1.
        WetlandBin b (0, k) = to_double (real m / real_of_int T) \<and>
        (\<forall>m'. 1 \<le> m' \<and> m' < m \<longrightarrow> to_double (real m' / real_of_int T) < ac) \<and>
        ac \<le> WetlandBin b (0, k))"

section \<open>Properties of the neighbor tables\<close>

lemma fold_updown:
  "fold (\<lambda>i (down, up). (down(i := i - 1), up(i := i + 1))) xs (d, u) =
     (\<lambda>k. if k \<in> set xs then k - 1 else d k, \<lambda>k. if k \<in> set xs then k + 1 else u k)"
proof (induction xs arbitrary: d u)
  case Nil
  show ?case by simp
next
  case (Cons x xs)
  have "fold (\<lambda>i (down, up). (down(i := i - 1), up(i := i + 1))) (x # xs) (d, u) =
        fold (\<lambda>i (down, up). (down(i := i - 1), up(i := i + 1))) xs (d(x := x - 1), u(x := x + 1))"
    by simp
  also have "\<dots> = (\<lambda>k. if k \<in> set xs then k - 1 else (d(x := x - 1)) k,
                     \<lambda>k. if k \<in> set xs then k + 1 else (u(x := x + 1)) k)"
    by (rule Cons.IH)
  also have "\<dots> = (\<lambda>k. if k \<in> set (x # xs) then k - 1 else d k,
                     \<lambda>k. if k \<in> set (x # xs) then k + 1 else u k)"
    by (auto simp: fun_eq_iff)
  finally show ?case .
qed

lemma fill_updown_eq:
  "fill_updown n (d, u) =
     (\<lambda>k. if 1 \<le> k \<and> k \<le> n then k - 1 else d k, \<lambda>k. if 1 \<le> k \<and> k \<le> n then k + 1 else u k)"
  by (simp add: fill_updown_def fold_updown)

lemma iup_setup:
  "iup (setupgridneighbors sx sy) i = (if i = sx then sx else if 1 \<le> i \<and> i \<le> sx then i + 1 else 0)"
  by (simp add: setupgridneighbors_def fill_updown_eq)

lemma idown_setup:
  "idown (setupgridneighbors sx sy) i = (if i = 1 then 1 else if 1 \<le> i \<and> i \<le> sx then i - 1 else 0)"
  by (simp add: setupgridneighbors_def fill_updown_eq)

lemma jup_setup:
  "jup (setupgridneighbors sx sy) j = (if j = sy then sy else if 1 \<le> j \<and> j \<le> sy then j + 1 else 0)"
  by (simp add: setupgridneighbors_def fill_updown_eq)

lemma jdown_setup:
  "jdown (setupgridneighbors sx sy) j = (if j = 1 then 1 else if 1 \<le> j \<and> j \<le> sy then j - 1 else 0)"
  by (simp add: setupgridneighbors_def fill_updown_eq)

text \<open>
  Claim C7.  The tables built by \<^verbatim>\<open>setupgridneighbors\<close> send every index of \<open>1..size\<close> that
  is not on the lower edge to \<open>index - 1\<close> and every index that is not on the upper edge to
  \<open>index + 1\<close>; a step off an edge returns the edge index itself: \<open>idown[1] = 1\<close>,
  \<open>iup[size_x] = size_x\<close>, \<open>jdown[1] = 1\<close>, \<open>jup[size_y] = size_y\<close>.  There is no wraparound
  and no sentinel entry.
\<close>

theorem setupgridneighbors_clamped:
  "idown (setupgridneighbors sx sy) 1 = 1 \<and>
   iup (setupgridneighbors sx sy) sx = sx \<and>
   jdown (setupgridneighbors sx sy) 1 = 1 \<and>
   jup (setupgridneighbors sx sy) sy = sy \<and>
   (\<forall>i. 1 < i \<and> i \<le> sx \<longrightarrow> idown (setupgridneighbors sx sy) i = i - 1) \<and>
   (\<forall>i. 1 \<le> i \<and> i < sx \<longrightarrow> iup (setupgridneighbors sx sy) i = i + 1) \<and>
   (\<forall>j. 1 < j \<and> j \<le> sy \<longrightarrow> jdown (setupgridneighbors sx sy) j = j - 1) \<and>
   (\<forall>j. 1 \<le> j \<and> j < sy \<longrightarrow> jup (setupgridneighbors sx sy) j = j + 1)"
  by (simp add: iup_setup idown_setup jup_setup jdown_setup)

theorem setupgridneighbors_clamped_witness:
  "idown (setupgridneighbors 3 2) 1 = 1 \<and> iup (setupgridneighbors 3 2) 3 = 3 \<and>
   jdown (setupgridneighbors 3 2) 1 = 1 \<and> jup (setupgridneighbors 3 2) 2 = 2 \<and>
   idown (setupgridneighbors 3 2) 2 = 1 \<and> iup (setupgridneighbors 3 2) 2 = 3 \<and>
   jdown (setupgridneighbors 3 2) 2 = 1 \<and> jup (setupgridneighbors 3 2) 1 = 2"
  using setupgridneighbors_clamped [of 3 2] by simp

section \<open>Properties of the sink and flat elimination\<close>


lemma fold_lower_min_le: "fold (lower_min nodata tp) cs m \<le> m"
proof (induction cs arbitrary: m)
  case Nil show ?case by simp
next
  case (Cons c cs)
  have "fold (lower_min nodata tp) cs (lower_min nodata tp c m) \<le> lower_min nodata tp c m"
    by (rule Cons.IH)
  also have "\<dots> \<le> m" by (simp add: lower_min_def)
  finally show ?case by simp
qed

lemma le_fold_lower_min:
  "v \<le> fold (lower_min nodata tp) cs m \<longleftrightarrow>
     v \<le> m \<and> (\<forall>c \<in> set cs. tp c \<noteq> nodata \<longrightarrow> v \<le> tp c)"
proof (induction cs arbitrary: m)
  case Nil show ?case by simp
next
  case (Cons c cs)
  show ?case unfolding fold_simps Cons.IH
    by (auto simp: lower_min_def)
qed

lemma pit_min_le: "pit_min nb nodata tp i j \<le> tp (i, j)"
  by (simp add: pit_min_def fold_lower_min_le)

lemma is_pit_iff:
  "is_pit e tp i j \<longleftrightarrow>
     (\<forall>c \<in> set (fill_neighbors (env_nb e) i j). tp c \<noteq> env_nodata e \<longrightarrow> tp (i, j) \<le> tp c) \<and>
     tp (i, j) \<noteq> env_nodata e \<and> 1 < i \<and> 1 < j \<and> i < env_size_x e \<and> j < env_size_y e"
  by (auto simp: is_pit_def pit_min_def le_fold_lower_min)

lemma is_pit_min_eq: "is_pit e tp i j \<Longrightarrow> pit_min (env_nb e) (env_nodata e) tp i j = tp (i, j)"
  using pit_min_le [of "env_nb e" "env_nodata e" tp i j] by (simp add: is_pit_def)


lemma bind_SomeE:
  assumes "(m \<bind> g) = Some r"
  obtains x where "m = Some x" and "g x = Some r"
  using assms by (cases m) simp_all

lemma fill_post_refl: "\<not> is_pit e tp i j \<Longrightarrow> fill_post e [(i, j)] tp tp"
  by (auto simp: fill_post_def)

lemma fill_post_nil: "fill_post e [] tp tp"
  by (simp add: fill_post_def)

lemma fill_post_trans:
  assumes "fill_post e cs1 t0 t1" and "fill_post e cs2 t1 t2"
  shows "fill_post e (cs1 @ cs2) t0 t2"
  unfolding fill_post_def
proof (intro conjI allI impI)
  fix c show "t0 c \<le> t2 c"
    using assms unfolding fill_post_def by (meson order_trans)
next
  fix a b assume "\<not> (1 < a \<and> a < env_size_x e \<and> 1 < b \<and> b < env_size_y e)"
  then show "t2 (a, b) = t0 (a, b)"
    using assms unfolding fill_post_def by simp
next
  fix a b assume "is_pit e t2 a b"
  then show "is_pit e t0 a b" using assms unfolding fill_post_def by blast
next
  fix a b assume "is_pit e t2 a b"
  then show "(a, b) \<notin> set (cs1 @ cs2)" using assms unfolding fill_post_def by auto
qed

lemma fill_neighbors_interior:
  assumes "1 < a" "a < sx" "1 < b" "b < sy"
  shows "fill_neighbors (setupgridneighbors sx sy) a b =
     [(a + 1, b), (a - 1, b), (a, b + 1), (a, b - 1),
      (a + 1, b + 1), (a - 1, b + 1), (a - 1, b - 1), (a + 1, b - 1)]"
  using assms by (simp add: fill_neighbors_def iup_setup idown_setup jup_setup jdown_setup)



lemma in_ring:
  "(p, q) \<in> set [(a + 1, b), (a - 1, b), (a, b + 1), (a, b - 1),
      (a + 1, b + 1), (a - 1, b + 1), (a - 1, b - 1), (a + 1 :: int, b - 1 :: int)] \<longleftrightarrow>
   (p \<noteq> a \<or> q \<noteq> b) \<and> a - 1 \<le> p \<and> p \<le> a + 1 \<and> b - 1 \<le> q \<and> q \<le> (b::int) + 1"
  unfolding list.set insert_iff empty_iff prod.inject by presburger

lemma fill_post_raise:
  assumes nb: "env_nb e = setupgridneighbors (env_size_x e) (env_size_y e)"
    and pit: "is_pit e tp i j"
    and post: "fill_post e ((i, j) # fill_neighbors (env_nb e) i j)
                 (tp((i, j) := pit_min (env_nb e) (env_nodata e) tp i j + fillincrement)) t"
  shows "fill_post e [(i, j)] tp t"
proof -
  define t1 where "t1 = tp((i, j) := pit_min (env_nb e) (env_nodata e) tp i j + fillincrement)"
  have post1: "fill_post e ((i, j) # fill_neighbors (env_nb e) i j) t1 t"
    using post by (simp only: t1_def)
  have int_ij: "1 < i" "i < env_size_x e" "1 < j" "j < env_size_y e"
    using pit by (simp_all add: is_pit_def)
  have raise: "t1 (i, j) = tp (i, j) + fillincrement"
    using is_pit_min_eq [OF pit] by (simp add: t1_def)
  have other: "t1 c = tp c" if "c \<noteq> (i, j)" for c
    using that by (simp add: t1_def)
  have mono1: "tp c \<le> t1 c" for c
  proof (cases "c = (i, j)")
    case True
    then show ?thesis using raise by (simp add: fillincrement_def)
  next
    case False
    then show ?thesis by (simp add: other)
  qed
  have nbij: "fill_neighbors (env_nb e) i j =
     [(i + 1, j), (i - 1, j), (i, j + 1), (i, j - 1),
      (i + 1, j + 1), (i - 1, j + 1), (i - 1, j - 1), (i + 1, j - 1)]"
    unfolding nb using int_ij by (rule fill_neighbors_interior)
  have unraise: "is_pit e tp a b"
    if p1: "is_pit e t1 a b" and far: "(a, b) \<notin> set ((i, j) # fill_neighbors (env_nb e) i j)" for a b
  proof -
    have int_ab: "1 < a" "a < env_size_x e" "1 < b" "b < env_size_y e"
      using p1 by (simp_all add: is_pit_def)
    have nbab: "fill_neighbors (env_nb e) a b =
       [(a + 1, b), (a - 1, b), (a, b + 1), (a, b - 1),
        (a + 1, b + 1), (a - 1, b + 1), (a - 1, b - 1), (a + 1, b - 1)]"
      unfolding nb using int_ab by (rule fill_neighbors_interior)
    have ne: "(a, b) \<noteq> (i, j)" using far by simp
    have "(a, b) \<notin> set (fill_neighbors (env_nb e) i j)" using far by simp
    then have "\<not> ((a \<noteq> i \<or> b \<noteq> j) \<and> i - 1 \<le> a \<and> a \<le> i + 1 \<and> j - 1 \<le> b \<and> b \<le> j + 1)"
      unfolding nbij in_ring .
    then have "\<not> ((i \<noteq> a \<or> j \<noteq> b) \<and> a - 1 \<le> i \<and> i \<le> a + 1 \<and> b - 1 \<le> j \<and> j \<le> b + 1)"
      by arith
    then have notin: "(i, j) \<notin> set (fill_neighbors (env_nb e) a b)"
      unfolding nbab in_ring .
    have same: "t1 c = tp c" if "c \<in> set (fill_neighbors (env_nb e) a b)" for c
      using that notin by (intro other) blast
    have self: "t1 (a, b) = tp (a, b)" using ne by (rule other)
    have low: "\<forall>c \<in> set (fill_neighbors (env_nb e) a b). tp c \<noteq> env_nodata e \<longrightarrow> tp (a, b) \<le> tp c"
    proof (intro ballI impI)
      fix c assume cin: "c \<in> set (fill_neighbors (env_nb e) a b)" and valid: "tp c \<noteq> env_nodata e"
      from p1 cin have "t1 c \<noteq> env_nodata e \<longrightarrow> t1 (a, b) \<le> t1 c"
        unfolding is_pit_iff by blast
      then have "tp c \<noteq> env_nodata e \<longrightarrow> tp (a, b) \<le> tp c"
        unfolding same [OF cin] self .
      with valid show "tp (a, b) \<le> tp c" by blast
    qed
    have "tp (a, b) \<noteq> env_nodata e"
      using p1 unfolding is_pit_iff self by blast
    with low int_ab show ?thesis unfolding is_pit_iff by blast
  qed
  show ?thesis
    unfolding fill_post_def
  proof (intro conjI allI impI)
    fix c
    have "t1 c \<le> t c" using post1 unfolding fill_post_def by blast
    with mono1 [of c] show "tp c \<le> t c" by (rule order_trans)
  next
    fix a b assume out: "\<not> (1 < a \<and> a < env_size_x e \<and> 1 < b \<and> b < env_size_y e)"
    then have "(a, b) \<noteq> (i, j)" using int_ij by blast
    then have "t1 (a, b) = tp (a, b)" by (rule other)
    moreover have "t (a, b) = t1 (a, b)" using post1 out unfolding fill_post_def by blast
    ultimately show "t (a, b) = tp (a, b)" by simp
  next
    fix a b assume "is_pit e t a b"
    then have "is_pit e t1 a b" "(a, b) \<notin> set ((i, j) # fill_neighbors (env_nb e) i j)"
      using post1 unfolding fill_post_def by blast+
    then show "is_pit e tp a b" by (rule unraise)
  next
    fix a b assume "is_pit e t a b"
    then have "(a, b) \<notin> set ((i, j) # fill_neighbors (env_nb e) i j)"
      using post1 unfolding fill_post_def by blast
    then show "(a, b) \<notin> set [(i, j)]" by simp
  qed
qed

lemma fillinpitsandflats_post:
  assumes "fillinpitsandflats e i j tp = Some tp'"
    and "env_nb e = setupgridneighbors (env_size_x e) (env_size_y e)"
  shows "fill_post e [(i, j)] tp tp'"
proof -
  have "env_nb e = setupgridneighbors (env_size_x e) (env_size_y e) \<longrightarrow> fill_post e [(i, j)] tp tp'"
  proof (rule fillinpitsandflats.raw_induct
      [where P = "\<lambda>e i j tp r. env_nb e = setupgridneighbors (env_size_x e) (env_size_y e)
                     \<longrightarrow> fill_post e [(i, j)] tp r", OF _ assms(1)], goal_cases)
    case (1 f e i j tp r)
    show ?case
    proof
      assume nb: "env_nb e = setupgridneighbors (env_size_x e) (env_size_y e)"
      show "fill_post e [(i, j)] tp r"
      proof (cases "is_pit e tp i j")
        case False
        with 1(2) have "r = tp" by simp
        with False show ?thesis by (simp add: fill_post_refl)
      next
        case True
        let ?nb = "env_nb e"
        let ?t = "tp((i, j) := pit_min ?nb (env_nodata e) tp i j + fillincrement)"
        from 1(2) True have "f e i j ?t \<bind> (\<lambda>t0. f e (iup ?nb i) j t0 \<bind>
            (\<lambda>t1. f e (idown ?nb i) j t1 \<bind> (\<lambda>t2. f e i (jup ?nb j) t2 \<bind>
            (\<lambda>t3. f e i (jdown ?nb j) t3 \<bind> (\<lambda>t4. f e (iup ?nb i) (jup ?nb j) t4 \<bind>
            (\<lambda>t5. f e (idown ?nb i) (jup ?nb j) t5 \<bind>
            (\<lambda>t6. f e (idown ?nb i) (jdown ?nb j) t6 \<bind>
            f e (iup ?nb i) (jdown ?nb j)))))))) = Some r"
          by (simp only: if_True)
        then obtain t0 where c0: "f e i j ?t = Some t0"
          and r0: "f e (iup ?nb i) j t0 \<bind>
            (\<lambda>t1. f e (idown ?nb i) j t1 \<bind> (\<lambda>t2. f e i (jup ?nb j) t2 \<bind>
            (\<lambda>t3. f e i (jdown ?nb j) t3 \<bind> (\<lambda>t4. f e (iup ?nb i) (jup ?nb j) t4 \<bind>
            (\<lambda>t5. f e (idown ?nb i) (jup ?nb j) t5 \<bind>
            (\<lambda>t6. f e (idown ?nb i) (jdown ?nb j) t6 \<bind>
            f e (iup ?nb i) (jdown ?nb j))))))) = Some r"
          by (rule bind_SomeE)
        from r0 obtain t1 where c1: "f e (iup ?nb i) j t0 = Some t1"
          and r1: "f e (idown ?nb i) j t1 \<bind> (\<lambda>t2. f e i (jup ?nb j) t2 \<bind>
            (\<lambda>t3. f e i (jdown ?nb j) t3 \<bind> (\<lambda>t4. f e (iup ?nb i) (jup ?nb j) t4 \<bind>
            (\<lambda>t5. f e (idown ?nb i) (jup ?nb j) t5 \<bind>
            (\<lambda>t6. f e (idown ?nb i) (jdown ?nb j) t6 \<bind>
            f e (iup ?nb i) (jdown ?nb j)))))) = Some r"
          by (rule bind_SomeE)
        from r1 obtain t2 where c2: "f e (idown ?nb i) j t1 = Some t2"
          and r2: "f e i (jup ?nb j) t2 \<bind>
            (\<lambda>t3. f e i (jdown ?nb j) t3 \<bind> (\<lambda>t4. f e (iup ?nb i) (jup ?nb j) t4 \<bind>
            (\<lambda>t5. f e (idown ?nb i) (jup ?nb j) t5 \<bind>
            (\<lambda>t6. f e (idown ?nb i) (jdown ?nb j) t6 \<bind>
            f e (iup ?nb i) (jdown ?nb j))))) = Some r"
          by (rule bind_SomeE)
        from r2 obtain t3 where c3: "f e i (jup ?nb j) t2 = Some t3"
          and r3: "f e i (jdown ?nb j) t3 \<bind> (\<lambda>t4. f e (iup ?nb i) (jup ?nb j) t4 \<bind>
            (\<lambda>t5. f e (idown ?nb i) (jup ?nb j) t5 \<bind>
            (\<lambda>t6. f e (idown ?nb i) (jdown ?nb j) t6 \<bind>
            f e (iup ?nb i) (jdown ?nb j)))) = Some r"
          by (rule bind_SomeE)
        from r3 obtain t4 where c4: "f e i (jdown ?nb j) t3 = Some t4"
          and r4: "f e (iup ?nb i) (jup ?nb j) t4 \<bind>
            (\<lambda>t5. f e (idown ?nb i) (jup ?nb j) t5 \<bind>
            (\<lambda>t6. f e (idown ?nb i) (jdown ?nb j) t6 \<bind>
            f e (iup ?nb i) (jdown ?nb j))) = Some r"
          by (rule bind_SomeE)
        from r4 obtain t5 where c5: "f e (iup ?nb i) (jup ?nb j) t4 = Some t5"
          and r5: "f e (idown ?nb i) (jup ?nb j) t5 \<bind>
            (\<lambda>t6. f e (idown ?nb i) (jdown ?nb j) t6 \<bind>
            f e (iup ?nb i) (jdown ?nb j)) = Some r"
          by (rule bind_SomeE)
        from r5 obtain t6 where c6: "f e (idown ?nb i) (jup ?nb j) t5 = Some t6"
          and r6: "f e (idown ?nb i) (jdown ?nb j) t6 \<bind>
            f e (iup ?nb i) (jdown ?nb j) = Some r"
          by (rule bind_SomeE)
        from r6 obtain t7 where c7: "f e (idown ?nb i) (jdown ?nb j) t6 = Some t7"
          and c8: "f e (iup ?nb i) (jdown ?nb j) t7 = Some r"
          by (rule bind_SomeE)
        note ih = 1(1) [THEN mp, OF _ nb]
        have "fill_post e ([(i, j)] @ [(iup ?nb i, j)] @ [(idown ?nb i, j)] @ [(i, jup ?nb j)] @
                [(i, jdown ?nb j)] @ [(iup ?nb i, jup ?nb j)] @ [(idown ?nb i, jup ?nb j)] @
                [(idown ?nb i, jdown ?nb j)] @ [(iup ?nb i, jdown ?nb j)]) ?t r"
          by (intro fill_post_trans [OF ih [OF c0]] fill_post_trans [OF ih [OF c1]]
                fill_post_trans [OF ih [OF c2]] fill_post_trans [OF ih [OF c3]]
                fill_post_trans [OF ih [OF c4]] fill_post_trans [OF ih [OF c5]]
                fill_post_trans [OF ih [OF c6]] fill_post_trans [OF ih [OF c7]] ih [OF c8])
        then have "fill_post e ((i, j) # fill_neighbors ?nb i j) ?t r"
          by (simp add: fill_neighbors_def)
        with nb True show ?thesis by (rule fill_post_raise)
      qed
    qed
  qed
  with assms(2) show ?thesis by simp
qed


lemma fill_pass_post:
  assumes "fill_pass e cs tp = Some tp'"
    and nb: "env_nb e = setupgridneighbors (env_size_x e) (env_size_y e)"
  shows "fill_post e cs tp tp'"
  using assms(1)
proof (induction cs arbitrary: tp)
  case Nil
  then show ?case by (simp add: fill_post_nil)
next
  case (Cons c cs)
  obtain i j where c: "c = (i, j)" by (cases c)
  from Cons.prems c obtain t where
    t: "fillinpitsandflats e i j tp = Some t" and rest: "fill_pass e cs t = Some tp'"
    by (auto split: option.splits)
  have "fill_post e ([(i, j)] @ cs) tp tp'"
    using fillinpitsandflats_post [OF t nb] Cons.IH [OF rest] by (rule fill_post_trans)
  then show ?case by (simp add: c)
qed

lemma set_sweep_cells:
  "set (sweep_cells sx sy) = {(i, j). 1 \<le> i \<and> i \<le> sx \<and> 1 \<le> j \<and> j \<le> sy}"
  by (auto simp: sweep_cells_def)

lemma isolated_cell_pit: "is_pit (fill_env_of 3 3 (- 9999)) (isolated_cell k) 2 2"
  by (simp add: is_pit_iff fill_env_of_def isolated_cell_def fill_neighbors_def
      iup_setup idown_setup jup_setup jdown_setup fillincrement_def)

lemma isolated_cell_raise:
  "(isolated_cell k)((2, 2) := pit_min (env_nb (fill_env_of 3 3 (- 9999))) (env_nodata (fill_env_of 3 3 (- 9999)))
       (isolated_cell k) 2 2 + fillincrement) = isolated_cell (Suc k)"
  unfolding is_pit_min_eq [OF isolated_cell_pit]
  by (simp add: isolated_cell_def algebra_simps)

lemma isolated_cell_never_returns:
  assumes "fillinpitsandflats e i j tp = Some r"
  shows "\<not> (e = fill_env_of 3 3 (- 9999) \<and> i = 2 \<and> j = 2 \<and> (\<exists>k. tp = isolated_cell k))"
proof (rule fillinpitsandflats.raw_induct
    [where P = "\<lambda>e i j tp r. \<not> (e = fill_env_of 3 3 (- 9999) \<and> i = 2 \<and> j = 2 \<and> (\<exists>k. tp = isolated_cell k))",
      OF _ assms], goal_cases)
  case (1 f e i j tp r)
  show ?case
  proof
    assume "e = fill_env_of 3 3 (- 9999) \<and> i = 2 \<and> j = 2 \<and> (\<exists>k. tp = isolated_cell k)"
    then obtain k where e: "e = fill_env_of 3 3 (- 9999)" and i: "i = 2" and j: "j = 2"
      and tp: "tp = isolated_cell k" by blast
    have pit: "is_pit e tp i j" unfolding e i j tp by (rule isolated_cell_pit)
    from 1(2) pit obtain t0 where
      "f e i j (tp((i, j) := pit_min (env_nb e) (env_nodata e) tp i j + fillincrement)) = Some t0"
      by (simp only: if_True) (erule bind_SomeE)
    then have "f (fill_env_of 3 3 (- 9999)) 2 2 (isolated_cell (Suc k)) = Some t0"
      unfolding e i j tp isolated_cell_raise .
    from 1(1) [OF this] show False by blast
  qed
qed

lemma fill_notpit: "\<not> is_pit e tp i j \<Longrightarrow> fillinpitsandflats e i j tp = Some tp"
  by (subst fillinpitsandflats.simps) simp

lemma fill_env_of_simps:
  "env_nb (fill_env_of sx sy nodata) = setupgridneighbors sx sy"
  "env_size_x (fill_env_of sx sy nodata) = sx"
  "env_size_y (fill_env_of sx sy nodata) = sy"
  "env_nodata (fill_env_of sx sy nodata) = nodata"
  by (simp_all add: fill_env_of_def)

lemma fill_pass_flat3:
  "fill_pass (fill_env_of 3 3 (- 9999)) (sweep_cells 3 3) flat3 = Some flat3_filled"
  by (simp add: sweep_cells_def fillinpitsandflats.simps is_pit_def pit_min_def fill_neighbors_def
      lower_min_def fill_env_of_def upto_rec1 iup_setup idown_setup jup_setup jdown_setup
      fillincrement_def flat3_def flat3_filled_def)

lemma fill_raise_inv:
  assumes fin: "finite V" and rk: "fill_ranked e V rank" and inv: "fill_inv e V rank H tp"
    and pit: "is_pit e tp i j"
  shows "fill_inv e V rank H (tp((i, j) := pit_min (env_nb e) (env_nodata e) tp i j + fillincrement)) \<and>
         fill_measure V rank H (tp((i, j) := pit_min (env_nb e) (env_nodata e) tp i j + fillincrement))
           < fill_measure V rank H tp"
proof -
  let ?c = "(i, j)"
  let ?B = "H + real (rank ?c) * fillincrement"
  define tp1 where "tp1 = tp(?c := tp ?c + fillincrement)"
  have eq: "tp(?c := pit_min (env_nb e) (env_nodata e) tp i j + fillincrement) = tp1"
    unfolding tp1_def is_pit_min_eq [OF pit] ..
  have eps: "0 < fillincrement" by (simp add: fillincrement_def)
  have interior: "1 < i \<and> i < env_size_x e \<and> 1 < j \<and> j < env_size_y e" and valid: "tp ?c \<noteq> env_nodata e"
    and low: "\<And>c. c \<in> set (fill_neighbors (env_nb e) i j) \<Longrightarrow> tp c \<noteq> env_nodata e \<Longrightarrow> tp ?c \<le> tp c"
    using pit unfolding is_pit_iff by blast+
  have cV: "?c \<in> V" using inv interior valid unfolding fill_inv_def by blast
  from rk interior cV obtain c' where
    c': "c' \<in> set (fill_neighbors (env_nb e) i j)" "c' \<in> V" "rank c' < rank ?c"
    unfolding fill_ranked_def by blast
  have b': "env_nodata e < tp c'" "tp c' \<le> H + real (rank c') * fillincrement"
    using inv c'(2) unfolding fill_inv_def by blast+
  have "tp ?c \<le> tp c'" using low [OF c'(1)] b'(1) by simp
  moreover have "real (rank c') + 1 \<le> real (rank ?c)" using c'(3) by linarith
  then have "(real (rank c') + 1) * fillincrement \<le> real (rank ?c) * fillincrement"
    using eps by (simp only: mult_le_cancel_right_pos)
  ultimately have room: "tp ?c + fillincrement \<le> ?B"
    using b'(2) by (simp add: algebra_simps)
  have above: "env_nodata e < tp ?c" using inv cV unfolding fill_inv_def by blast
  have inv1: "fill_inv e V rank H tp1"
    unfolding fill_inv_def
  proof (intro conjI ballI allI impI)
    fix c assume c: "c \<in> V"
    show "env_nodata e < tp1 c"
    proof (cases "c = ?c")
      case True
      then show ?thesis using above eps unfolding tp1_def by simp
    next
      case False
      then show ?thesis using inv c unfolding tp1_def fill_inv_def by simp
    qed
    show "tp1 c \<le> H + real (rank c) * fillincrement"
    proof (cases "c = ?c")
      case True
      then show ?thesis using room unfolding tp1_def by simp
    next
      case False
      then show ?thesis using inv c unfolding tp1_def fill_inv_def by simp
    qed
  next
    fix a b
    assume h: "1 < a \<and> a < env_size_x e \<and> 1 < b \<and> b < env_size_y e \<and> tp1 (a, b) \<noteq> env_nodata e"
    show "(a, b) \<in> V"
    proof (cases "(a, b) = ?c")
      case True
      then show ?thesis using cV by simp
    next
      case False
      then have "tp1 (a, b) = tp (a, b)" unfolding tp1_def by (rule fun_upd_other)
      then show ?thesis using inv h unfolding fill_inv_def by simp
    qed
  qed
  have r1: "fill_room rank H tp1 ?c < fill_room rank H tp ?c"
  proof -
    have "(?B - tp1 ?c) / fillincrement = (?B - tp ?c) / fillincrement - 1"
      unfolding tp1_def using eps by (simp add: field_simps)
    then have f: "\<lfloor>(?B - tp1 ?c) / fillincrement\<rfloor> = \<lfloor>(?B - tp ?c) / fillincrement\<rfloor> - 1"
      by simp
    have "1 \<le> (?B - tp ?c) / fillincrement" using room eps by (simp add: field_simps)
    then have "1 \<le> \<lfloor>(?B - tp ?c) / fillincrement\<rfloor>" by linarith
    then show ?thesis unfolding fill_room_def f by linarith
  qed
  have rest: "fill_room rank H tp1 c = fill_room rank H tp c" if "c \<noteq> ?c" for c
    using that unfolding fill_room_def tp1_def by simp
  have "fill_measure V rank H tp1 = fill_room rank H tp1 ?c + (\<Sum>c \<in> V - {?c}. fill_room rank H tp1 c)"
    unfolding fill_measure_def using fin cV by (rule sum.remove)
  also have "(\<Sum>c \<in> V - {?c}. fill_room rank H tp1 c) = (\<Sum>c \<in> V - {?c}. fill_room rank H tp c)"
    by (rule sum.cong) (simp_all add: rest)
  also have "fill_room rank H tp1 ?c + (\<Sum>c \<in> V - {?c}. fill_room rank H tp c)
               < fill_room rank H tp ?c + (\<Sum>c \<in> V - {?c}. fill_room rank H tp c)"
    using r1 by simp
  also have "fill_room rank H tp ?c + (\<Sum>c \<in> V - {?c}. fill_room rank H tp c) = fill_measure V rank H tp"
    unfolding fill_measure_def using fin cV by (rule sum.remove [symmetric])
  finally have "fill_measure V rank H tp1 < fill_measure V rank H tp" .
  with inv1 show ?thesis unfolding eq by blast
qed


lemma fillinpitsandflats_returns_bounded:
  assumes fin: "finite V" and rk: "fill_ranked e V rank"
  shows "\<forall>i j tp. fill_inv e V rank H tp \<and> fill_measure V rank H tp \<le> n \<longrightarrow>
           (\<exists>tp'. fillinpitsandflats e i j tp = Some tp' \<and> fill_inv e V rank H tp' \<and>
                  fill_measure V rank H tp' \<le> fill_measure V rank H tp)"
proof (induction n)
  case 0
  show ?case
  proof (intro allI impI)
    fix i j tp
    assume h: "fill_inv e V rank H tp \<and> fill_measure V rank H tp \<le> 0"
    have "\<not> is_pit e tp i j"
    proof
      assume "is_pit e tp i j"
      from fill_raise_inv [OF fin rk conjunct1 [OF h] this] h show False by simp
    qed
    then have "fillinpitsandflats e i j tp = Some tp" by (rule fill_notpit)
    with h show "\<exists>tp'. fillinpitsandflats e i j tp = Some tp' \<and> fill_inv e V rank H tp' \<and>
                  fill_measure V rank H tp' \<le> fill_measure V rank H tp"
      by simp
  qed
next
  case (Suc n)
  have step: "\<exists>t'. fillinpitsandflats e a b t = Some t' \<and> fill_inv e V rank H t' \<and>
                  fill_measure V rank H t' \<le> n \<and> fill_measure V rank H t' \<le> fill_measure V rank H t"
    if "fill_inv e V rank H t" "fill_measure V rank H t \<le> n" for a b t
  proof -
    from Suc.IH that obtain t' where
      "fillinpitsandflats e a b t = Some t'" "fill_inv e V rank H t'"
      "fill_measure V rank H t' \<le> fill_measure V rank H t"
      by blast
    with that(2) show ?thesis by (intro exI [of _ t']) simp
  qed
  show ?case
  proof (intro allI impI)
    fix i j tp
    assume h: "fill_inv e V rank H tp \<and> fill_measure V rank H tp \<le> Suc n"
    show "\<exists>tp'. fillinpitsandflats e i j tp = Some tp' \<and> fill_inv e V rank H tp' \<and>
                  fill_measure V rank H tp' \<le> fill_measure V rank H tp"
    proof (cases "is_pit e tp i j")
      case False
      then have "fillinpitsandflats e i j tp = Some tp" by (rule fill_notpit)
      with h show ?thesis by simp
    next
      case True
      let ?nb = "env_nb e"
      define tp1 where "tp1 = tp((i, j) := pit_min (env_nb e) (env_nodata e) tp i j + fillincrement)"
      from fill_raise_inv [OF fin rk conjunct1 [OF h] True]
      have i1: "fill_inv e V rank H tp1" and m1: "fill_measure V rank H tp1 < fill_measure V rank H tp"
        unfolding tp1_def by blast+
      have k1: "fill_measure V rank H tp1 \<le> n" using m1 h by linarith
      from step [OF i1 k1] obtain t0 where
        c0: "fillinpitsandflats e i j tp1 = Some t0" and v0: "fill_inv e V rank H t0"
        and b0: "fill_measure V rank H t0 \<le> n" and d0: "fill_measure V rank H t0 \<le> fill_measure V rank H tp1"
        by blast
      from step [OF v0 b0] obtain t1 where
        c1: "fillinpitsandflats e (iup ?nb i) j t0 = Some t1" and v1: "fill_inv e V rank H t1"
        and b1: "fill_measure V rank H t1 \<le> n" and d1: "fill_measure V rank H t1 \<le> fill_measure V rank H t0"
        by blast
      from step [OF v1 b1] obtain t2 where
        c2: "fillinpitsandflats e (idown ?nb i) j t1 = Some t2" and v2: "fill_inv e V rank H t2"
        and b2: "fill_measure V rank H t2 \<le> n" and d2: "fill_measure V rank H t2 \<le> fill_measure V rank H t1"
        by blast
      from step [OF v2 b2] obtain t3 where
        c3: "fillinpitsandflats e i (jup ?nb j) t2 = Some t3" and v3: "fill_inv e V rank H t3"
        and b3: "fill_measure V rank H t3 \<le> n" and d3: "fill_measure V rank H t3 \<le> fill_measure V rank H t2"
        by blast
      from step [OF v3 b3] obtain t4 where
        c4: "fillinpitsandflats e i (jdown ?nb j) t3 = Some t4" and v4: "fill_inv e V rank H t4"
        and b4: "fill_measure V rank H t4 \<le> n" and d4: "fill_measure V rank H t4 \<le> fill_measure V rank H t3"
        by blast
      from step [OF v4 b4] obtain t5 where
        c5: "fillinpitsandflats e (iup ?nb i) (jup ?nb j) t4 = Some t5" and v5: "fill_inv e V rank H t5"
        and b5: "fill_measure V rank H t5 \<le> n" and d5: "fill_measure V rank H t5 \<le> fill_measure V rank H t4"
        by blast
      from step [OF v5 b5] obtain t6 where
        c6: "fillinpitsandflats e (idown ?nb i) (jup ?nb j) t5 = Some t6" and v6: "fill_inv e V rank H t6"
        and b6: "fill_measure V rank H t6 \<le> n" and d6: "fill_measure V rank H t6 \<le> fill_measure V rank H t5"
        by blast
      from step [OF v6 b6] obtain t7 where
        c7: "fillinpitsandflats e (idown ?nb i) (jdown ?nb j) t6 = Some t7" and v7: "fill_inv e V rank H t7"
        and b7: "fill_measure V rank H t7 \<le> n" and d7: "fill_measure V rank H t7 \<le> fill_measure V rank H t6"
        by blast
      from step [OF v7 b7] obtain t8 where
        c8: "fillinpitsandflats e (iup ?nb i) (jdown ?nb j) t7 = Some t8" and v8: "fill_inv e V rank H t8"
        and b8: "fill_measure V rank H t8 \<le> n" and d8: "fill_measure V rank H t8 \<le> fill_measure V rank H t7"
        by blast
      have "fillinpitsandflats e i j tp = Some t8"
        by (subst fillinpitsandflats.simps)
           (simp only: True if_True tp1_def [symmetric] c0 c1 c2 c3 c4 c5 c6 c7 c8 Option.bind.bind_lunit)
      moreover have "fill_measure V rank H t8 \<le> fill_measure V rank H tp"
        using d0 d1 d2 d3 d4 d5 d6 d7 d8 m1 by linarith
      ultimately show ?thesis using v8 by blast
    qed
  qed
qed

lemma fillinpitsandflats_returns:
  assumes "finite V" "fill_ranked e V rank" "fill_inv e V rank H tp"
  shows "\<exists>tp'. fillinpitsandflats e i j tp = Some tp' \<and> fill_inv e V rank H tp'"
  using fillinpitsandflats_returns_bounded [OF assms(1,2), of H "fill_measure V rank H tp"] assms(3)
  by blast

lemma fill_pass_returns:
  assumes "finite V" "fill_ranked e V rank" "fill_inv e V rank H tp"
  shows "\<exists>tp'. fill_pass e cs tp = Some tp'"
  using assms(3)
proof (induction cs arbitrary: tp)
  case Nil
  show ?case by simp
next
  case (Cons c cs)
  obtain i j where c: "c = (i, j)" by (cases c)
  from fillinpitsandflats_returns [OF assms(1,2) Cons.prems, of i j] obtain t where
    t: "fillinpitsandflats e i j tp = Some t" "fill_inv e V rank H t" by blast
  from Cons.IH [OF t(2)] t(1) show ?case by (simp add: c)
qed


lemma fill_neighbors_in_grid:
  assumes "1 < i" "i < sx" "1 < j" "j < sy"
    and "c \<in> set (fill_neighbors (setupgridneighbors sx sy) i j)"
  shows "c \<in> set (sweep_cells sx sy)"
proof -
  obtain p q where c: "c = (p, q)" by (cases c)
  from assms(5) have "i - 1 \<le> p \<and> p \<le> i + 1 \<and> j - 1 \<le> q \<and> q \<le> j + 1"
    unfolding c fill_neighbors_interior [OF assms(1-4)] in_ring by blast
  with assms(1-4) show ?thesis unfolding c set_sweep_cells by simp
qed

lemma fill_pass_returns_ranked:
  assumes above: "\<forall>c \<in> set (sweep_cells sx sy). tp c \<noteq> nodata \<longrightarrow> nodata < tp c"
    and rank: "\<forall>i j. 1 < i \<and> i < sx \<and> 1 < j \<and> j < sy \<and> tp (i, j) \<noteq> nodata \<longrightarrow>
                 (\<exists>c \<in> set (fill_neighbors (setupgridneighbors sx sy) i j).
                    tp c \<noteq> nodata \<and> rank c < (rank (i, j) :: nat))"
  shows "\<exists>tp'. fill_pass (fill_env_of sx sy nodata) cs tp = Some tp'"
proof -
  let ?e = "fill_env_of sx sy nodata"
  define V where "V = {c \<in> set (sweep_cells sx sy). tp c \<noteq> nodata}"
  define H where "H = Max (tp ` set (sweep_cells sx sy))"
  have fin: "finite V" unfolding V_def by simp
  have rk: "fill_ranked ?e V rank"
    unfolding fill_ranked_def fill_env_of_simps
  proof (intro allI impI)
    fix i j
    assume h: "1 < i \<and> i < sx \<and> 1 < j \<and> j < sy \<and> (i, j) \<in> V"
    then have "tp (i, j) \<noteq> nodata" unfolding V_def by simp
    with rank h obtain c where
      c: "c \<in> set (fill_neighbors (setupgridneighbors sx sy) i j)" "tp c \<noteq> nodata" "rank c < rank (i, j)"
      by blast
    have "c \<in> set (sweep_cells sx sy)"
      using h c(1) by (intro fill_neighbors_in_grid [of i sx j sy]) simp_all
    then have "c \<in> V" using c(2) unfolding V_def by simp
    with c show "\<exists>c \<in> set (fill_neighbors (setupgridneighbors sx sy) i j). c \<in> V \<and> rank c < rank (i, j)"
      by blast
  qed
  have inv: "fill_inv ?e V rank H tp"
    unfolding fill_inv_def fill_env_of_simps
  proof (intro conjI ballI allI impI)
    fix c assume c: "c \<in> V"
    then show "nodata < tp c" using above unfolding V_def by simp
    have "tp c \<in> tp ` set (sweep_cells sx sy)" using c unfolding V_def by simp
    then have "tp c \<le> H" unfolding H_def by (intro Max_ge) simp_all
    moreover have "0 \<le> real (rank c) * fillincrement" by (simp add: fillincrement_def)
    ultimately show "tp c \<le> H + real (rank c) * fillincrement" by linarith
  next
    fix i j
    assume "1 < i \<and> i < sx \<and> 1 < j \<and> j < sy \<and> tp (i, j) \<noteq> nodata"
    then show "(i, j) \<in> V" unfolding V_def set_sweep_cells by simp
  qed
  from fin rk inv show ?thesis by (rule fill_pass_returns)
qed

lemma fill_pass_drains_partial:
  assumes "fill_pass (fill_env_of sx sy nodata) (sweep_cells sx sy) tp = Some tp'"
  shows "(\<forall>i j. 1 < i \<and> i < sx \<and> 1 < j \<and> j < sy \<and> tp' (i, j) \<noteq> nodata \<longrightarrow>
            (\<exists>c \<in> set (fill_neighbors (setupgridneighbors sx sy) i j).
               tp' c \<noteq> nodata \<and> tp' c < tp' (i, j)) \<and>
            Min (tp' ` {c \<in> set (fill_neighbors (setupgridneighbors sx sy) i j). tp' c \<noteq> nodata})
              < tp' (i, j)) \<and>
         (\<forall>i j. \<not> (1 < i \<and> i < sx \<and> 1 < j \<and> j < sy) \<longrightarrow> tp' (i, j) = tp (i, j)) \<and>
         (\<forall>c. tp c \<le> tp' c)"
proof -
  let ?e = "fill_env_of sx sy nodata"
  have post: "fill_post ?e (sweep_cells sx sy) tp tp'"
    using assms by (rule fill_pass_post) (simp add: fill_env_of_simps)
  have nopit: "\<not> is_pit ?e tp' i j" for i j
  proof
    assume p: "is_pit ?e tp' i j"
    then have "(i, j) \<notin> set (sweep_cells sx sy)"
      using post unfolding fill_post_def by blast
    moreover have "1 < i \<and> i < sx \<and> 1 < j \<and> j < sy"
      using p by (simp add: is_pit_def fill_env_of_simps)
    ultimately show False by (simp add: set_sweep_cells)
  qed
  have drains: "\<exists>c \<in> set (fill_neighbors (setupgridneighbors sx sy) i j). tp' c \<noteq> nodata \<and> tp' c < tp' (i, j)"
    if "1 < i \<and> i < sx \<and> 1 < j \<and> j < sy \<and> tp' (i, j) \<noteq> nodata" for i j
  proof -
    from nopit [of i j] that
    have "\<not> (\<forall>c \<in> set (fill_neighbors (setupgridneighbors sx sy) i j). tp' c \<noteq> nodata \<longrightarrow> tp' (i, j) \<le> tp' c)"
      by (simp add: is_pit_iff fill_env_of_simps)
    then show ?thesis by (auto simp: not_le)
  qed
  have lowmin: "Min (tp' ` {c \<in> set (fill_neighbors (setupgridneighbors sx sy) i j). tp' c \<noteq> nodata})
              < tp' (i, j)"
    if "1 < i \<and> i < sx \<and> 1 < j \<and> j < sy \<and> tp' (i, j) \<noteq> nodata" for i j
  proof -
    let ?V = "{c \<in> set (fill_neighbors (setupgridneighbors sx sy) i j). tp' c \<noteq> nodata}"
    from drains [OF that] obtain c where c: "c \<in> ?V" and lt: "tp' c < tp' (i, j)" by blast
    have "finite (tp' ` ?V)" by simp
    moreover have "tp' c \<in> tp' ` ?V" using c by (rule imageI)
    ultimately have "Min (tp' ` ?V) \<le> tp' c" by (rule Min_le)
    with lt show ?thesis by linarith
  qed
  have border: "tp' (i, j) = tp (i, j)" if "\<not> (1 < i \<and> i < sx \<and> 1 < j \<and> j < sy)" for i j
    using post that unfolding fill_post_def by (simp add: fill_env_of_simps)
  have mono: "tp c \<le> tp' c" for c
    using post unfolding fill_post_def by blast
  from drains lowmin border mono show ?thesis by blast
qed

lemma fill_pass_returns_valid:
  assumes "\<forall>c \<in> set (sweep_cells sx sy). nodata < tp c"
  shows "\<exists>tp'. fill_pass (fill_env_of sx sy nodata) cs tp = Some tp'"
proof (rule fill_pass_returns_ranked [where rank = "\<lambda>(i, j). nat i"])
  show "\<forall>c \<in> set (sweep_cells sx sy). tp c \<noteq> nodata \<longrightarrow> nodata < tp c"
    using assms by blast
  show "\<forall>i j. 1 < i \<and> i < sx \<and> 1 < j \<and> j < sy \<and> tp (i, j) \<noteq> nodata \<longrightarrow>
          (\<exists>c \<in> set (fill_neighbors (setupgridneighbors sx sy) i j).
             tp c \<noteq> nodata \<and> (case c of (i, j) \<Rightarrow> nat i) < (case (i, j) of (i, j) \<Rightarrow> nat i))"
  proof (intro allI impI)
    fix i j
    assume h: "1 < i \<and> i < sx \<and> 1 < j \<and> j < sy \<and> tp (i, j) \<noteq> nodata"
    then have b: "1 < i" "i < sx" "1 < j" "j < sy" by blast+
    have m: "(i - 1, j) \<in> set (fill_neighbors (setupgridneighbors sx sy) i j)"
      unfolding fill_neighbors_interior [OF b] by simp
    then have "(i - 1, j) \<in> set (sweep_cells sx sy)"
      using b by (intro fill_neighbors_in_grid [of i sx j sy])
    then have "nodata < tp (i - 1, j)" using assms by blast
    then have "tp (i - 1, j) \<noteq> nodata" by simp
    moreover have "nat (i - 1) < nat i" using b(1) by simp
    ultimately show "\<exists>c \<in> set (fill_neighbors (setupgridneighbors sx sy) i j).
             tp c \<noteq> nodata \<and> (case c of (i, j) \<Rightarrow> nat i) < (case (i, j) of (i, j) \<Rightarrow> nat i)"
      using m by (intro bexI [where x = "(i - 1, j)"]) simp_all
  qed
qed

text \<open>
  Claim C2.  Whenever the sink/flat elimination pass over the whole grid returns, the filled
  matrix has the following three properties.  Every interior cell (\<open>1 < i < lattice_size_x\<close>,
  \<open>1 < j < lattice_size_y\<close>) that is not nodata has a non-nodata neighbor with a strictly
  lower elevation, and its elevation is strictly greater than the minimum over its valid
  neighbors.  Every cell that is not interior, the border ring in particular, keeps its
  input value.  No cell is lower than before the pass.  And the pass does return on every
  grid in which the valid elevations lie above the nodata value and every valid interior
  cell is linked to the border ring through valid cells: there is a rank on the cells such
  that every valid interior cell has a valid neighbor of smaller rank.  In a grid without
  nodata cells the column index is such a rank, so the pass returns on every grid whose
  elevations all lie above the nodata value.
\<close>

theorem fill_pass_drains:
  "(\<forall>tp'. fill_pass (fill_env_of sx sy nodata) (sweep_cells sx sy) tp = Some tp' \<longrightarrow>
      (\<forall>i j. 1 < i \<and> i < sx \<and> 1 < j \<and> j < sy \<and> tp' (i, j) \<noteq> nodata \<longrightarrow>
         (\<exists>c \<in> set (fill_neighbors (setupgridneighbors sx sy) i j).
            tp' c \<noteq> nodata \<and> tp' c < tp' (i, j)) \<and>
         Min (tp' ` {c \<in> set (fill_neighbors (setupgridneighbors sx sy) i j). tp' c \<noteq> nodata})
           < tp' (i, j)) \<and>
      (\<forall>i j. \<not> (1 < i \<and> i < sx \<and> 1 < j \<and> j < sy) \<longrightarrow> tp' (i, j) = tp (i, j)) \<and>
      (\<forall>c. tp c \<le> tp' c)) \<and>
   ((\<forall>c \<in> set (sweep_cells sx sy). tp c \<noteq> nodata \<longrightarrow> nodata < tp c) \<and>
    (\<forall>i j. 1 < i \<and> i < sx \<and> 1 < j \<and> j < sy \<and> tp (i, j) \<noteq> nodata \<longrightarrow>
       (\<exists>c \<in> set (fill_neighbors (setupgridneighbors sx sy) i j).
          tp c \<noteq> nodata \<and> rank c < (rank (i, j) :: nat))) \<longrightarrow>
    (\<exists>tp'. fill_pass (fill_env_of sx sy nodata) (sweep_cells sx sy) tp = Some tp')) \<and>
   ((\<forall>c \<in> set (sweep_cells sx sy). nodata < tp c) \<longrightarrow>
    (\<exists>tp'. fill_pass (fill_env_of sx sy nodata) (sweep_cells sx sy) tp = Some tp'))"
proof (intro conjI)
  show "\<forall>tp'. fill_pass (fill_env_of sx sy nodata) (sweep_cells sx sy) tp = Some tp' \<longrightarrow>
      (\<forall>i j. 1 < i \<and> i < sx \<and> 1 < j \<and> j < sy \<and> tp' (i, j) \<noteq> nodata \<longrightarrow>
         (\<exists>c \<in> set (fill_neighbors (setupgridneighbors sx sy) i j).
            tp' c \<noteq> nodata \<and> tp' c < tp' (i, j)) \<and>
         Min (tp' ` {c \<in> set (fill_neighbors (setupgridneighbors sx sy) i j). tp' c \<noteq> nodata})
           < tp' (i, j)) \<and>
      (\<forall>i j. \<not> (1 < i \<and> i < sx \<and> 1 < j \<and> j < sy) \<longrightarrow> tp' (i, j) = tp (i, j)) \<and>
      (\<forall>c. tp c \<le> tp' c)"
    using fill_pass_drains_partial by blast
next
  show "(\<forall>c \<in> set (sweep_cells sx sy). tp c \<noteq> nodata \<longrightarrow> nodata < tp c) \<and>
    (\<forall>i j. 1 < i \<and> i < sx \<and> 1 < j \<and> j < sy \<and> tp (i, j) \<noteq> nodata \<longrightarrow>
       (\<exists>c \<in> set (fill_neighbors (setupgridneighbors sx sy) i j).
          tp c \<noteq> nodata \<and> rank c < rank (i, j))) \<longrightarrow>
    (\<exists>tp'. fill_pass (fill_env_of sx sy nodata) (sweep_cells sx sy) tp = Some tp')"
  proof
    assume h: "(\<forall>c \<in> set (sweep_cells sx sy). tp c \<noteq> nodata \<longrightarrow> nodata < tp c) \<and>
      (\<forall>i j. 1 < i \<and> i < sx \<and> 1 < j \<and> j < sy \<and> tp (i, j) \<noteq> nodata \<longrightarrow>
         (\<exists>c \<in> set (fill_neighbors (setupgridneighbors sx sy) i j).
            tp c \<noteq> nodata \<and> rank c < rank (i, j)))"
    show "\<exists>tp'. fill_pass (fill_env_of sx sy nodata) (sweep_cells sx sy) tp = Some tp'"
      using conjunct1 [OF h] conjunct2 [OF h] by (rule fill_pass_returns_ranked)
  qed
next
  show "(\<forall>c \<in> set (sweep_cells sx sy). nodata < tp c) \<longrightarrow>
    (\<exists>tp'. fill_pass (fill_env_of sx sy nodata) (sweep_cells sx sy) tp = Some tp')"
    using fill_pass_returns_valid by blast
qed

theorem fill_pass_drains_witness:
  "(\<exists>tp'. fill_pass (fill_env_of 3 3 (- 9999)) (sweep_cells 3 3) flat3 = Some tp') \<and>
   fill_pass (fill_env_of 3 3 (- 9999)) (sweep_cells 3 3) flat3 = Some flat3_filled \<and>
   (\<exists>c \<in> set (fill_neighbors (setupgridneighbors 3 3) 2 2).
      flat3_filled c \<noteq> - 9999 \<and>
      flat3_filled c < flat3_filled (2, 2)) \<and>
   flat3_filled (1, 1) = 5 \<and>
   (5 :: real) \<le> flat3_filled (2, 2)"
proof -
  note r = fill_pass_drains [of 3 3 "- 9999" flat3 "\<lambda>(i, j). nat i"]
  have h1: "\<forall>c \<in> set (sweep_cells 3 3). flat3 c \<noteq> - 9999 \<longrightarrow> - 9999 < flat3 c"
    by (simp add: flat3_def)
  have h2: "\<forall>i j. 1 < i \<and> i < 3 \<and> 1 < j \<and> j < 3 \<and> flat3 (i, j) \<noteq> - 9999 \<longrightarrow>
       (\<exists>c \<in> set (fill_neighbors (setupgridneighbors 3 3) i j).
          flat3 c \<noteq> - 9999 \<and> (case c of (i, j) \<Rightarrow> nat i) < (case (i, j) of (i, j) \<Rightarrow> nat i))"
  proof (intro allI impI)
    fix i j :: int
    assume "1 < i \<and> i < 3 \<and> 1 < j \<and> j < 3 \<and> flat3 (i, j) \<noteq> - 9999"
    then have ij: "i = 2" "j = 2" by linarith+
    show "\<exists>c \<in> set (fill_neighbors (setupgridneighbors 3 3) i j).
          flat3 c \<noteq> - 9999 \<and> (case c of (i, j) \<Rightarrow> nat i) < (case (i, j) of (i, j) \<Rightarrow> nat i)"
      unfolding ij
      by (rule bexI [where x = "(1, 2)"])
         (simp_all add: flat3_def fill_neighbors_def idown_setup)
  qed
  from r h1 h2 have t: "\<exists>tp'. fill_pass (fill_env_of 3 3 (- 9999)) (sweep_cells 3 3) flat3 = Some tp'"
    by blast
  from r fill_pass_flat3
  have a: "\<exists>c \<in> set (fill_neighbors (setupgridneighbors 3 3) 2 2).
      flat3_filled c \<noteq> - 9999 \<and>
      flat3_filled c < flat3_filled (2, 2)"
    by (simp add: flat3_filled_def)
  have b: "flat3_filled (1, 1) = 5" by (simp add: flat3_filled_def)
  have c: "(5 :: real) \<le> flat3_filled (2, 2)"
    by (simp add: flat3_filled_def)
  from t fill_pass_flat3 a b c show ?thesis by blast
qed

lemma isolated_cell_diverges:
  "fillinpitsandflats (fill_env_of 3 3 (- 9999)) 2 2 (isolated_cell k) = None"
proof (cases "fillinpitsandflats (fill_env_of 3 3 (- 9999)) 2 2 (isolated_cell k)")
  case None
  then show ?thesis .
next
  case (Some r)
  from isolated_cell_never_returns [OF Some] show ?thesis by blast
qed

lemma fill_border:
  "\<not> (1 < i \<and> i < sx \<and> 1 < j \<and> j < sy) \<Longrightarrow>
     fillinpitsandflats (fill_env_of sx sy nodata) i j tp = Some tp"
  by (rule fill_notpit) (auto simp: is_pit_def fill_env_of_simps)

lemma fill_pass_isolated:
  "fill_pass (fill_env_of 3 3 (- 9999)) (sweep_cells 3 3) (isolated_cell 0) = None"
  by (simp add: sweep_cells_def upto_rec1 fill_border isolated_cell_diverges)

lemma dem_isolated_topo: "(\<lambda>(i, j). dem_isolated (j - 1, i - 1)) = isolated_cell 0"
  by (auto simp: fun_eq_iff dem_isolated_def isolated_cell_def)

text \<open>
  Claim C8.  The claim says that the recursion returns on every finite grid.  On the
  \<open>3 \<times> 3\<close> grid whose centre cell holds the elevation \<open>5\<close> and whose eight other cells are
  nodata (\<open>-9999\<close>), the centre is interior and has no valid neighbor, so the guard of the
  raise holds after every raise: the call on the centre never returns, and neither does
  \<^verbatim>\<open>fillin\<close> on that DEM.
\<close>

theorem fillinpitsandflats_isolated_cell_diverges:
  "fillinpitsandflats (fill_env_of 3 3 (- 9999)) 2 2 ((\<lambda>_. - 9999)((2, 2) := 5)) = None \<and>
   fillin dem_isolated 3 3 1 1 (- 9999) = None"
proof
  have "(\<lambda>_. - 9999)((2, 2) := 5) = isolated_cell 0" by (simp add: isolated_cell_def)
  then show "fillinpitsandflats (fill_env_of 3 3 (- 9999)) 2 2 ((\<lambda>_. - 9999)((2, 2) := 5)) = None"
    using isolated_cell_diverges [of 0] by simp
  show "fillin dem_isolated 3 3 1 1 (- 9999) = None"
    unfolding fillin_def Let_def dem_isolated_topo fill_pass_isolated by simp
qed

section \<open>Properties of the routing step\<close>

lemma pow11_pos: "0 < x \<Longrightarrow> 0 < pow11 x"
  by (simp add: pow11_def)

lemma pow11_nonneg: "0 \<le> pow11 x"
  by (simp add: pow11_def)

lemma oneoversqrt2_pos: "0 < oneoversqrt2"
  by (simp add: oneoversqrt2_def)

lemma unit_proxy_nonneg: "0 \<le> unit_proxy nb nodata tp i j d"
  by (simp add: unit_proxy_def pow11_nonneg)

lemma unit_proxy_pos:
  "lower_valid nodata tp (i, j) (neighbor_cell nb i j d) \<Longrightarrow> 0 < unit_proxy nb nodata tp i j d"
  by (simp add: unit_proxy_def lower_valid_def pow11_pos oneoversqrt2_pos)

lemma mfd_tot_sum:
  "mfd_tot nb nodata tp i j = (\<Sum>d \<leftarrow> directions. unit_proxy nb nodata tp i j d)"
  by (simp add: mfd_tot_def directions_def unit_proxy_def Let_def)

lemma mfd_tot_nonneg: "0 \<le> mfd_tot nb nodata tp i j"
  unfolding mfd_tot_sum by (rule sum_list_nonneg) (auto simp: unit_proxy_nonneg)

lemma mfd_tot_pos:
  assumes "d \<in> set directions" "lower_valid nodata tp (i, j) (neighbor_cell nb i j d)"
  shows "0 < mfd_tot nb nodata tp i j"
proof -
  have "0 < unit_proxy nb nodata tp i j d" using assms(2) by (rule unit_proxy_pos)
  also have "\<dots> \<le> (\<Sum>d \<leftarrow> directions. unit_proxy nb nodata tp i j d)"
    using assms(1) by (intro member_le_sum_list) (auto simp: unit_proxy_nonneg)
  finally show ?thesis by (simp add: mfd_tot_sum)
qed


lemma fraction_of_mfd_fractions:
  "fraction_of d (mfd_fractions nb i j nodata s) (i, j) =
     (if topo s (i, j) \<noteq> nodata \<and> lower_valid nodata (topo s) (i, j) (neighbor_cell nb i j d)
      then unit_proxy nb nodata (topo s) i j d / mfd_tot nb nodata (topo s) i j else 0)"
  by (cases d) (simp_all add: mfd_fractions_def unit_proxy_def Let_def)

lemma mfd_fractions_fields:
  "topo (mfd_fractions nb i j nodata s) = topo s"
  "flow (mfd_fractions nb i j nodata s) = flow s"
  by (simp_all add: mfd_fractions_def Let_def)

lemma route_to_fields:
  "topo (route_to p fk c s) = topo s"
  "fraction_of d (route_to p fk c s) = fraction_of d s"
  "flow (route_to p fk c s) = (flow s)(p := flow s p + flow s c * fk s c)"
  by (cases d; simp add: route_to_def)+

lemma mfdflowroute_fold:
  "mfdflowroute nb i j nodata s =
     fold (\<lambda>d. route_to (neighbor_cell nb i j d) (fraction_of d) (i, j)) directions
       (mfd_fractions nb i j nodata s)"
  by (simp add: mfdflowroute_def directions_def Let_def)

lemma distinct_cells:
  "distinct js \<Longrightarrow> distinct is \<Longrightarrow> distinct (concat (map (\<lambda>j. map (\<lambda>i. (i, j)) is) js))"
proof (induction js)
  case Nil
  show ?case by simp
next
  case (Cons j js)
  have "distinct (map (\<lambda>i. (i, j)) is)"
    using Cons.prems(2) by (simp add: distinct_map inj_on_def)
  moreover have "distinct (concat (map (\<lambda>j. map (\<lambda>i. (i, j)) is) js))"
    using Cons by simp
  moreover have "set (map (\<lambda>i. (i, j)) is) \<inter> set (concat (map (\<lambda>j. map (\<lambda>i. (i, j)) is) js)) = {}"
    using Cons.prems(1) by auto
  ultimately show ?case by simp
qed

lemma distinct_sweep_cells: "distinct (sweep_cells sx sy)"
  unfolding sweep_cells_def by (rule distinct_cells) simp_all

lemma grid_total_upd:
  assumes "p \<in> set (sweep_cells sx sy)"
  shows "grid_total sx sy (g(p := g p + v)) = grid_total sx sy g + v"
proof -
  let ?A = "set (sweep_cells sx sy)"
  have fin: "finite ?A" by simp
  have "grid_total sx sy (g(p := g p + v)) = sum (g(p := g p + v)) ?A"
    unfolding grid_total_def by (rule sum_list_distinct_conv_sum_set [OF distinct_sweep_cells])
  also have "\<dots> = (g(p := g p + v)) p + sum (g(p := g p + v)) (?A - {p})"
    using fin assms by (rule sum.remove)
  also have "sum (g(p := g p + v)) (?A - {p}) = sum g (?A - {p})"
    by (rule sum.cong) auto
  also have "(g(p := g p + v)) p + sum g (?A - {p}) = (g p + sum g (?A - {p})) + v"
    by simp
  also have "g p + sum g (?A - {p}) = sum g ?A"
    using fin assms by (rule sum.remove [symmetric])
  also have "sum g ?A = grid_total sx sy g"
    unfolding grid_total_def by (rule sum_list_distinct_conv_sum_set [OF distinct_sweep_cells, symmetric])
  finally show ?thesis .
qed

lemma route_fold:
  assumes "\<forall>d \<in> set ds. neighbor_cell nb i j d \<in> set (sweep_cells sx sy)"
    and "\<forall>d \<in> set ds. neighbor_cell nb i j d = (i, j) \<longrightarrow> fraction_of d s (i, j) = 0"
  shows "grid_total sx sy (flow (fold (\<lambda>d. route_to (neighbor_cell nb i j d) (fraction_of d) (i, j)) ds s)) =
           grid_total sx sy (flow s) + flow s (i, j) * (\<Sum>d \<leftarrow> ds. fraction_of d s (i, j)) \<and>
         flow (fold (\<lambda>d. route_to (neighbor_cell nb i j d) (fraction_of d) (i, j)) ds s) (i, j) = flow s (i, j)"
  using assms
proof (induction ds arbitrary: s)
  case Nil
  show ?case by simp
next
  case (Cons d ds)
  let ?p = "neighbor_cell nb i j d"
  let ?s1 = "route_to ?p (fraction_of d) (i, j) s"
  have pin: "?p \<in> set (sweep_cells sx sy)" using Cons.prems(1) by simp
  have same: "flow ?s1 (i, j) = flow s (i, j)"
  proof (cases "?p = (i, j)")
    case True
    then have "fraction_of d s (i, j) = 0" using Cons.prems(2) by simp
    then show ?thesis unfolding route_to_fields using True by simp
  next
    case False
    then show ?thesis unfolding route_to_fields by simp
  qed
  have tot1: "grid_total sx sy (flow ?s1) = grid_total sx sy (flow s) + flow s (i, j) * fraction_of d s (i, j)"
    unfolding route_to_fields using pin by (rule grid_total_upd)
  have fr: "fraction_of d' ?s1 = fraction_of d' s" for d'
    by (rule route_to_fields)
  have ih: "grid_total sx sy (flow (fold (\<lambda>d. route_to (neighbor_cell nb i j d) (fraction_of d) (i, j)) ds ?s1)) =
           grid_total sx sy (flow ?s1) + flow ?s1 (i, j) * (\<Sum>d \<leftarrow> ds. fraction_of d ?s1 (i, j)) \<and>
         flow (fold (\<lambda>d. route_to (neighbor_cell nb i j d) (fraction_of d) (i, j)) ds ?s1) (i, j) = flow ?s1 (i, j)"
    using Cons.prems by (intro Cons.IH) (simp_all add: fr)
  show ?case
    using ih unfolding fr same tot1 by (simp add: algebra_simps)
qed

lemma neighbor_cell_in_grid:
  assumes "1 \<le> i" "i \<le> sx" "1 \<le> j" "j \<le> sy"
  shows "neighbor_cell (setupgridneighbors sx sy) i j d \<in> set (sweep_cells sx sy)"
  using assms by (cases d) (simp_all add: set_sweep_cells iup_setup idown_setup jup_setup jdown_setup)

lemma not_lower_valid_self: "\<not> lower_valid nodata tp c c"
  by (simp add: lower_valid_def)

lemma sum_list_div: "(\<Sum>x \<leftarrow> xs. f x / c) = (\<Sum>x \<leftarrow> xs. f x) / (c :: real)"
  by (induction xs) (simp_all add: add_divide_distrib)

lemma fractions_sum:
  "(\<Sum>d \<leftarrow> directions. fraction_of d (mfd_fractions nb i j nodata s) (i, j)) =
     (if topo s (i, j) \<noteq> nodata \<and> (\<exists>d \<in> set directions. lower_valid nodata (topo s) (i, j) (neighbor_cell nb i j d))
      then 1 else 0)"
proof -
  let ?tp = "topo s"
  let ?tot = "mfd_tot nb nodata ?tp i j"
  have eq: "fraction_of d (mfd_fractions nb i j nodata s) (i, j) =
              (if ?tp (i, j) \<noteq> nodata then unit_proxy nb nodata ?tp i j d / ?tot else 0)" for d
    unfolding fraction_of_mfd_fractions by (simp add: unit_proxy_def)
  show ?thesis
  proof (cases "?tp (i, j) \<noteq> nodata")
    case False
    then show ?thesis unfolding eq by simp
  next
    case True
    have "(\<Sum>d \<leftarrow> directions. unit_proxy nb nodata ?tp i j d / ?tot) = ?tot / ?tot"
      unfolding sum_list_div by (simp add: mfd_tot_sum)
    show ?thesis
    proof (cases "\<exists>d \<in> set directions. lower_valid nodata ?tp (i, j) (neighbor_cell nb i j d)")
      case ex: True
      then have "0 < ?tot" using mfd_tot_pos by blast
      then show ?thesis unfolding eq using True ex
        \<open>(\<Sum>d \<leftarrow> directions. unit_proxy nb nodata ?tp i j d / ?tot) = ?tot / ?tot\<close> by simp
    next
      case nex: False
      then have "unit_proxy nb nodata ?tp i j d = 0" if "d \<in> set directions" for d
        using that by (simp add: unit_proxy_def)
      then have "(\<Sum>d \<leftarrow> directions. unit_proxy nb nodata ?tp i j d / ?tot) = 0"
        by (simp add: directions_def)
      then show ?thesis unfolding eq using True nex by simp
    qed
  qed
qed

lemma fold_route_fields:
  "topo (fold (\<lambda>d. route_to (neighbor_cell nb i j d) (fraction_of d) (i, j)) ds s) = topo s \<and>
   fraction_of d' (fold (\<lambda>d. route_to (neighbor_cell nb i j d) (fraction_of d) (i, j)) ds s) = fraction_of d' s"
  by (induction ds arbitrary: s) (simp_all add: route_to_fields)

lemma mfdflowroute_topo: "topo (mfdflowroute nb i j nodata s) = topo s"
  by (simp add: mfdflowroute_fold fold_route_fields mfd_fractions_fields)

lemma mfdflowroute_fraction:
  "fraction_of d (mfdflowroute nb i j nodata s) = fraction_of d (mfd_fractions nb i j nodata s)"
  by (simp add: mfdflowroute_fold fold_route_fields)

lemma fold_route_outside:
  assumes "\<forall>d \<in> set ds. neighbor_cell nb i j d \<in> set (sweep_cells sx sy)"
    and "c \<notin> set (sweep_cells sx sy)"
  shows "flow (fold (\<lambda>d. route_to (neighbor_cell nb i j d) (fraction_of d) (i, j)) ds s) c = flow s c"
  using assms(1)
proof (induction ds arbitrary: s)
  case Nil
  show ?case by simp
next
  case (Cons d ds)
  have "neighbor_cell nb i j d \<noteq> c" using Cons.prems assms(2) by auto
  then have "flow (route_to (neighbor_cell nb i j d) (fraction_of d) (i, j) s) c = flow s c"
    by (simp add: route_to_fields)
  moreover have "flow (fold (\<lambda>d. route_to (neighbor_cell nb i j d) (fraction_of d) (i, j)) ds
                   (route_to (neighbor_cell nb i j d) (fraction_of d) (i, j) s)) c =
                 flow (route_to (neighbor_cell nb i j d) (fraction_of d) (i, j) s) c"
    using Cons.prems by (intro Cons.IH) simp
  ultimately show ?case by simp
qed

lemma mfdflowroute_total_aux:
  assumes "1 \<le> i" "i \<le> sx" "1 \<le> j" "j \<le> sy"
  shows "grid_total sx sy (flow (mfdflowroute (setupgridneighbors sx sy) i j nodata s)) =
           grid_total sx sy (flow s) + flow s (i, j) *
             (if topo s (i, j) \<noteq> nodata \<and>
                 (\<exists>d \<in> set directions. lower_valid nodata (topo s) (i, j)
                    (neighbor_cell (setupgridneighbors sx sy) i j d))
              then 1 else 0) \<and>
         flow (mfdflowroute (setupgridneighbors sx sy) i j nodata s) (i, j) = flow s (i, j)"
proof -
  let ?nb = "setupgridneighbors sx sy"
  let ?s1 = "mfd_fractions ?nb i j nodata s"
  have a: "\<forall>d \<in> set directions. neighbor_cell ?nb i j d \<in> set (sweep_cells sx sy)"
    using assms by (simp add: neighbor_cell_in_grid)
  have b: "\<forall>d \<in> set directions. neighbor_cell ?nb i j d = (i, j) \<longrightarrow> fraction_of d ?s1 (i, j) = 0"
    by (simp add: fraction_of_mfd_fractions not_lower_valid_self)
  from route_fold [OF a b] show ?thesis
    unfolding mfdflowroute_fold fractions_sum mfd_fractions_fields .
qed

lemma mfdflowroute_outside:
  assumes "1 \<le> i" "i \<le> sx" "1 \<le> j" "j \<le> sy" "c \<notin> set (sweep_cells sx sy)"
  shows "flow (mfdflowroute (setupgridneighbors sx sy) i j nodata s) c = flow s c"
proof -
  have a: "\<forall>d \<in> set directions. neighbor_cell (setupgridneighbors sx sy) i j d \<in> set (sweep_cells sx sy)"
    using assms by (simp add: neighbor_cell_in_grid)
  show ?thesis
    unfolding mfdflowroute_fold using fold_route_outside [OF a assms(5)]
    by (simp add: mfd_fractions_fields)
qed

lemma fill21: "fill_pass (fill_env_of 2 1 (- 9999)) (sweep_cells 2 1) (\<lambda>(i, j). dem21 (j - 1, i - 1)) =
   Some (\<lambda>(i, j). dem21 (j - 1, i - 1))"
  by (simp add: sweep_cells_def fillinpitsandflats.simps is_pit_def fill_env_of_def upto_rec1)

lemma topovec21: "topovec_of 2 1 (\<lambda>(i, j). dem21 (j - 1, i - 1)) = (\<lambda>_. 0)(1 := 2, 2 := 1)"
  by (simp add: topovec_of_def sweep_cells_def upto_rec1 dem21_def)

lemma indexx21: "indexx 2 ((\<lambda>_. 0)(1 := 2, 2 := 1)) = Some ((\<lambda>_. 0)(1 := 2, 2 := 1))"
  by (simp add: indexx_def indexx_loop.simps Let_def ulong_sub_def M_indexx_def insertion_pass_def
      insert_one_def upt_conv_Cons fun_eq_iff)

lemma route_cell21: "route_cell 2 1 = (1, 1)" "route_cell 2 2 = (2, 1)"
  by (simp_all add: route_cell_def Let_def)

lemma route_sweep21:
  "route_sweep nb 2 nodata ((\<lambda>_. 0)(1 := 2, 2 := 1)) 2 s =
     mfdflowroute nb 2 1 nodata (mfdflowroute nb 1 1 nodata s)"
  by (simp add: route_sweep_def upt_conv_Cons route_cell21)

lemma fillin21:
  "fillin dem21 2 1 1 1 (- 9999) =
     Some (mfdflowroute (setupgridneighbors 2 1) 2 1 (- 9999)
            (mfdflowroute (setupgridneighbors 2 1) 1 1 (- 9999)
               \<lparr>topo = (\<lambda>(i, j). dem21 (j - 1, i - 1)), flow = (\<lambda>_. 1),
                flow1 = (\<lambda>_. 0), flow2 = (\<lambda>_. 0), flow3 = (\<lambda>_. 0), flow4 = (\<lambda>_. 0),
                flow5 = (\<lambda>_. 0), flow6 = (\<lambda>_. 0), flow7 = (\<lambda>_. 0), flow8 = (\<lambda>_. 0)\<rparr>))"
proof -
  have n: "nat (2 * 1) = 2" by simp
  show ?thesis
    unfolding fillin_def Let_def n start_lattice_def mult_1
    by (simp only: fill21 Option.bind.bind_lunit topovec21 indexx21 route_sweep21)
qed

lemma total_flow21: "total_flow dem21 2 1 1 1 (- 9999) = Some 3"
proof -
  let ?nb = "setupgridneighbors 2 1"
  let ?s0 = "\<lparr>topo = (\<lambda>(i, j). dem21 (j - 1, i - 1)), flow = (\<lambda>_. 1 :: real),
                flow1 = (\<lambda>_. 0), flow2 = (\<lambda>_. 0), flow3 = (\<lambda>_. 0), flow4 = (\<lambda>_. 0),
                flow5 = (\<lambda>_. 0), flow6 = (\<lambda>_. 0), flow7 = (\<lambda>_. 0), flow8 = (\<lambda>_. 0)\<rparr>"
  let ?s1 = "mfdflowroute ?nb 1 1 (- 9999) ?s0"
  let ?s2 = "mfdflowroute ?nb 2 1 (- 9999) ?s1"
  have t0: "grid_total 2 1 (flow ?s0) = 2"
    by (simp add: grid_total_def sweep_cells_def upto_rec1)
  have low1: "\<exists>d \<in> set directions. lower_valid (- 9999) (topo ?s0) (1, 1) (neighbor_cell ?nb 1 1 d)"
    by (rule bexI [where x = Iup]) (simp_all add: directions_def lower_valid_def iup_setup dem21_def)
  have v1: "topo ?s0 (1, 1) \<noteq> - 9999" by (simp add: dem21_def)
  have t1: "grid_total 2 1 (flow ?s1) = 3"
    using mfdflowroute_total_aux [of 1 2 1 1 "- 9999" ?s0, THEN conjunct1] low1 v1 t0
    by simp
  have nolow2: "\<not> (\<exists>d \<in> set directions. lower_valid (- 9999) (topo ?s1) (2, 1) (neighbor_cell ?nb 2 1 d))"
    unfolding mfdflowroute_topo
    by (simp add: directions_def lower_valid_def iup_setup idown_setup jup_setup jdown_setup dem21_def)
  have t2: "grid_total 2 1 (flow ?s2) = 3"
    using mfdflowroute_total_aux [of 2 2 1 1 "- 9999" ?s1, THEN conjunct1] nolow2 t1
    by simp
  show ?thesis
    unfolding total_flow_def fillin21 using t2 by simp
qed

lemma active_area21: "active_area dem21 2 1 1 1 (- 9999) = 2"
  by (simp add: active_area_def sweep_cells_def upto_rec1 dem21_def)

lemma route_fold_cell:
  assumes "\<forall>d \<in> set ds. neighbor_cell nb i j d = (i, j) \<longrightarrow> fraction_of d s (i, j) = 0"
  shows "flow (fold (\<lambda>d. route_to (neighbor_cell nb i j d) (fraction_of d) (i, j)) ds s) p =
           flow s p + flow s (i, j) *
             (\<Sum>d \<leftarrow> ds. if neighbor_cell nb i j d = p then fraction_of d s (i, j) else 0)"
  using assms
proof (induction ds arbitrary: s)
  case Nil
  show ?case by simp
next
  case (Cons d ds)
  let ?p = "neighbor_cell nb i j d"
  let ?s1 = "route_to ?p (fraction_of d) (i, j) s"
  have same: "flow ?s1 (i, j) = flow s (i, j)"
  proof (cases "?p = (i, j)")
    case True
    then have "fraction_of d s (i, j) = 0" using Cons.prems by simp
    then show ?thesis unfolding route_to_fields using True by simp
  next
    case False
    then show ?thesis unfolding route_to_fields by simp
  qed
  have fr: "fraction_of d' ?s1 = fraction_of d' s" for d'
    by (rule route_to_fields)
  have ih: "flow (fold (\<lambda>d. route_to (neighbor_cell nb i j d) (fraction_of d) (i, j)) ds ?s1) p =
           flow ?s1 p + flow ?s1 (i, j) *
             (\<Sum>d \<leftarrow> ds. if neighbor_cell nb i j d = p then fraction_of d ?s1 (i, j) else 0)"
    using Cons.prems by (intro Cons.IH) (simp_all add: fr)
  have s1p: "flow ?s1 p = flow s p + flow s (i, j) * (if ?p = p then fraction_of d s (i, j) else 0)"
    unfolding route_to_fields by simp
  show ?case
    using ih unfolding fr same s1p by (simp add: algebra_simps)
qed

lemma mfdflowroute_cell:
  "flow (mfdflowroute nb i j nodata s) p =
     flow s p + flow s (i, j) *
       (\<Sum>d \<leftarrow> directions. if neighbor_cell nb i j d = p
                             then fraction_of d (mfdflowroute nb i j nodata s) (i, j) else 0)"
proof -
  let ?s1 = "mfd_fractions nb i j nodata s"
  have b: "\<forall>d \<in> set directions. neighbor_cell nb i j d = (i, j) \<longrightarrow> fraction_of d ?s1 (i, j) = 0"
    by (simp add: fraction_of_mfd_fractions not_lower_valid_self)
  from route_fold_cell [OF b, of p] show ?thesis
    unfolding mfdflowroute_fraction unfolding mfdflowroute_fold mfd_fractions_fields .
qed

lemma fraction_nonneg: "0 \<le> fraction_of d (mfd_fractions nb i j nodata s) (i, j)"
  unfolding fraction_of_mfd_fractions
  by (simp add: unit_proxy_nonneg mfd_tot_nonneg)

lemma mfdflowroute_mono:
  assumes "0 \<le> flow s (i, j)"
  shows "flow s p \<le> flow (mfdflowroute nb i j nodata s) p"
proof -
  have "0 \<le> (\<Sum>d \<leftarrow> directions. if neighbor_cell nb i j d = p
                             then fraction_of d (mfdflowroute nb i j nodata s) (i, j) else 0)"
    by (rule sum_list_nonneg) (auto simp: mfdflowroute_fraction fraction_nonneg)
  then have "0 \<le> flow s (i, j) * (\<Sum>d \<leftarrow> directions. if neighbor_cell nb i j d = p
                             then fraction_of d (mfdflowroute nb i j nodata s) (i, j) else 0)"
    using assms by simp
  then show ?thesis using mfdflowroute_cell [of nb i j nodata s p] by linarith
qed

lemma route_fold_mono:
  assumes "\<forall>c. 0 \<le> flow s c"
  shows "\<forall>c. flow s c \<le>
           flow (fold (\<lambda>t s. case route_cell sx (int (ind t)) of (i, j) \<Rightarrow> mfdflowroute nb i j nodata s) ts s) c"
  using assms
proof (induction ts arbitrary: s)
  case Nil
  show ?case by simp
next
  case (Cons t ts)
  obtain i j where ij: "route_cell sx (int (ind t)) = (i, j)" by (cases "route_cell sx (int (ind t))")
  let ?s1 = "mfdflowroute nb i j nodata s"
  have m: "flow s c \<le> flow ?s1 c" for c
    using Cons.prems by (intro mfdflowroute_mono) simp
  then have "\<forall>c. 0 \<le> flow ?s1 c" using Cons.prems by (meson order_trans)
  from Cons.IH [OF this] m show ?case
    by (simp add: ij) (meson order_trans)
qed

lemma route_sweep_mono:
  assumes "\<forall>c. 0 \<le> flow s c"
  shows "flow s c \<le> flow (route_sweep nb sx nodata ind n s) c"
  unfolding route_sweep_def using route_fold_mono [OF assms] by blast

lemma fillin_Some_iff:
  "fillin dem sx sy deltax deltay nodata = Some r \<longleftrightarrow>
     (\<exists>tp ind. fill_pass (fill_env_of sx sy nodata) (sweep_cells sx sy) (\<lambda>(i, j). dem (j - 1, i - 1)) = Some tp \<and>
        indexx (nat (sx * sy)) (topovec_of sx sy tp) = Some ind \<and>
        r = route_sweep (setupgridneighbors sx sy) sx nodata ind (nat (sx * sy)) (start_lattice tp deltax deltay))"
  unfolding fillin_def Let_def by (auto simp: bind_eq_Some_conv)

lemma grid_total_ge:
  assumes "\<forall>c. a \<le> g c"
  shows "real (length (sweep_cells sx sy)) * a \<le> grid_total sx sy g"
proof -
  have "(\<Sum>c \<leftarrow> sweep_cells sx sy. a) \<le> (\<Sum>c \<leftarrow> sweep_cells sx sy. g c)"
    by (rule sum_list_mono) (simp add: assms)
  then show ?thesis by (simp add: grid_total_def sum_list_triv)
qed

lemma active_area_le:
  assumes "0 \<le> deltax * deltay"
  shows "active_area dem sx sy deltax deltay nodata \<le> real (length (sweep_cells sx sy)) * (deltax * deltay)"
proof -
  have "(\<Sum>(i, j) \<leftarrow> sweep_cells sx sy. if dem (j - 1, i - 1) \<noteq> nodata then deltax * deltay else 0)
          \<le> (\<Sum>c \<leftarrow> sweep_cells sx sy. deltax * deltay)"
    by (rule sum_list_mono) (auto simp: assms)
  then show ?thesis by (simp add: active_area_def sum_list_triv)
qed

lemma length_sweep_cells: "length (sweep_cells sx sy) = nat sx * nat sy"
  by (simp add: sweep_cells_def length_concat comp_def sum_list_triv)

section \<open>The index sort returns\<close>

lemma ulong_add_small: "a + b < 2 ^ 64 \<Longrightarrow> ulong_add a b = a + b"
  by (simp add: ulong_add_def)

lemma ulong_sub_small:
  assumes "b \<le> a" "a < 2 ^ 64"
  shows "ulong_sub a b = a - b"
proof -
  have e: "int a - int b = int (a - b)" using assms by simp
  have "a - b < 2 ^ 64" using assms by simp
  then have "int (a - b) < 2 ^ 64" by (metis of_nat_less_iff of_nat_numeral of_nat_power)
  then have "int (a - b) mod 2 ^ 64 = int (a - b)" by simp
  then show ?thesis unfolding ulong_sub_def e by simp
qed

lemma scan_up_unfold:
  "scan_up arr a indx i =
     (if arr (indx (ulong_add i 1)) < a then scan_up arr a indx (ulong_add i 1) else Some (ulong_add i 1))"
  by (subst scan_up.simps) (simp only: Let_def)

lemma scan_down_unfold:
  "scan_down arr a indx j =
     (if arr (indx (ulong_sub j 1)) > a then scan_down arr a indx (ulong_sub j 1) else Some (ulong_sub j 1))"
  by (subst scan_down.simps) (simp only: Let_def)

lemma scan_up_returns:
  assumes "i < p" "p < 2 ^ 64" "\<not> arr (indx p) < a"
  shows "\<exists>i'. scan_up arr a indx i = Some i' \<and> i < i' \<and> i' \<le> p \<and> \<not> arr (indx i') < a \<and>
              (\<forall>q. i < q \<and> q < i' \<longrightarrow> arr (indx q) < a)"
  using assms
proof (induction "p - i" arbitrary: i rule: less_induct)
  case less
  have "i + 1 < 2 ^ 64" using less.prems by linarith
  then have s: "ulong_add i 1 = i + 1" by (rule ulong_add_small)
  show ?case
  proof (cases "arr (indx (i + 1)) < a")
    case False
    then have "scan_up arr a indx i = Some (i + 1)"
      unfolding scan_up_unfold [of arr a indx i] s by (simp only: if_False)
    moreover have "\<forall>q. i < q \<and> q < i + 1 \<longrightarrow> arr (indx q) < a" by simp
    moreover have "i < i + 1" "i + 1 \<le> p" using less.prems(1) by simp_all
    ultimately show ?thesis using False by blast
  next
    case True
    then have ne: "i + 1 \<noteq> p" using less.prems(3) by auto
    then have lt: "i + 1 < p" using less.prems(1) by simp
    have "p - (i + 1) < p - i" using less.prems(1) by simp
    from less.hyps [OF this lt less.prems(2,3)] obtain i' where
      r: "scan_up arr a indx (i + 1) = Some i'" "i + 1 < i'" "i' \<le> p" "\<not> arr (indx i') < a"
         "\<forall>q. i + 1 < q \<and> q < i' \<longrightarrow> arr (indx q) < a"
      by blast
    have "scan_up arr a indx i = Some i'"
      unfolding scan_up_unfold [of arr a indx i] s using True r(1) by (simp only: if_True)
    moreover have "\<forall>q. i < q \<and> q < i' \<longrightarrow> arr (indx q) < a"
    proof (intro allI impI)
      fix q assume "i < q \<and> q < i'"
      then consider "q = i + 1" | "i + 1 < q \<and> q < i'" by linarith
      then show "arr (indx q) < a" using True r(5) by cases auto
    qed
    moreover have "i < i'" using r(2) by simp
    ultimately show ?thesis using r(3,4) by blast
  qed
qed

lemma scan_down_returns:
  assumes "p < j" "j < 2 ^ 64" "\<not> arr (indx p) > a"
  shows "\<exists>j'. scan_down arr a indx j = Some j' \<and> p \<le> j' \<and> j' < j \<and> \<not> arr (indx j') > a \<and>
              (\<forall>q. j' < q \<and> q < j \<longrightarrow> arr (indx q) > a)"
  using assms
proof (induction "j - p" arbitrary: j rule: less_induct)
  case less
  have "1 \<le> j" using less.prems(1) by simp
  then have s: "ulong_sub j 1 = j - 1" using less.prems(2) by (rule ulong_sub_small)
  show ?case
  proof (cases "arr (indx (j - 1)) > a")
    case False
    then have "scan_down arr a indx j = Some (j - 1)"
      unfolding scan_down_unfold [of arr a indx j] s by (simp only: if_False)
    moreover have "\<forall>q. j - 1 < q \<and> q < j \<longrightarrow> arr (indx q) > a" by auto
    moreover have "p \<le> j - 1" "j - 1 < j" using less.prems(1) by simp_all
    ultimately show ?thesis using False by blast
  next
    case True
    then have ne: "j - 1 \<noteq> p" using less.prems(3) by auto
    then have lt: "p < j - 1" using less.prems(1) by simp
    have m: "(j - 1) - p < j - p" using less.prems(1) by simp
    have b: "j - 1 < 2 ^ 64" using less.prems(2) by simp
    from less.hyps [OF m lt b less.prems(3)] obtain j' where
      r: "scan_down arr a indx (j - 1) = Some j'" "p \<le> j'" "j' < j - 1" "\<not> arr (indx j') > a"
         "\<forall>q. j' < q \<and> q < j - 1 \<longrightarrow> arr (indx q) > a"
      by blast
    have "scan_down arr a indx j = Some j'"
      unfolding scan_down_unfold [of arr a indx j] s using True r(1) by (simp only: if_True)
    moreover have "\<forall>q. j' < q \<and> q < j \<longrightarrow> arr (indx q) > a"
    proof (intro allI impI)
      fix q assume "j' < q \<and> q < j"
      then consider "q = j - 1" | "j' < q \<and> q < j - 1" by linarith
      then show "arr (indx q) > a" using True r(5) by cases auto
    qed
    moreover have "j' < j" using r(3) by simp
    ultimately show ?thesis using r(2,4) by blast
  qed
qed


lemma index_range_upd: "index_range n indx \<Longrightarrow> 1 \<le> v \<Longrightarrow> v \<le> n \<Longrightarrow> index_range n (indx(p := v))"
  by (simp add: index_range_def)

lemma index_range_SWAP:
  assumes "index_range n indx" "1 \<le> p" "p \<le> n" "1 \<le> q" "q \<le> n"
  shows "index_range n (SWAP p q indx)"
  using assms unfolding SWAP_def Let_def index_range_def by simp

lemma partition_loop_unfold:
  assumes "scan_up arr a indx i = Some i'" "scan_down arr a indx j = Some j'"
  shows "partition_loop arr a (i, j) indx =
           (if j' < i' then Some (i', j', indx) else partition_loop arr a (i', j') (SWAP i' j' indx))"
  by (subst partition_loop.simps) (simp only: fst_conv snd_conv assms Option.bind.bind_lunit)

lemma partition_loop_returns:
  assumes "part_inv arr a l ir i j indx" "ir \<le> n" "index_range n indx"
  shows "\<exists>i' j' indx'. partition_loop arr a (i, j) indx = Some (i', j', indx') \<and>
           l + 1 \<le> j' \<and> j' < i' \<and> i' \<le> ir \<and> index_range n indx'"
  using assms
proof (induction j arbitrary: i indx rule: less_induct)
  case (less j)
  note inv = less.prems(1)
  have b: "l + 1 \<le> i" "i \<le> j" "j \<le> ir" "ir + 1 < 2 ^ 64"
    and ai: "\<not> arr (indx i) > a" and aj: "\<not> arr (indx j) < a"
    using inv unfolding part_inv_def by blast+
  have meet: "l + 1 \<le> i - 1 \<and> j + 1 \<le> ir \<and> \<not> arr (indx (i - 1)) > a \<and> \<not> arr (indx (j + 1)) < a"
    if "i = j"
    using inv that unfolding part_inv_def by blast
  define pu where "pu = (if i < j then j else j + 1)"
  define pd where "pd = (if i < j then i else i - 1)"
  have pu: "i < pu" "pu < 2 ^ 64" "\<not> arr (indx pu) < a" "pu \<le> ir" "pu \<le> j + 1"
    using b aj meet unfolding pu_def by (auto split: if_splits)
  have pd: "pd < j" "\<not> arr (indx pd) > a" "l + 1 \<le> pd" "i \<le> pd + 1"
    using b ai meet unfolding pd_def by (auto split: if_splits)
  have jb: "j < 2 ^ 64" using b by linarith
  from scan_up_returns [where i = i and p = pu and arr = arr and indx = indx and a = a, OF pu(1,2,3)] obtain i' where
    u: "scan_up arr a indx i = Some i'" "i < i'" "i' \<le> pu" "\<not> arr (indx i') < a"
       "\<forall>q. i < q \<and> q < i' \<longrightarrow> arr (indx q) < a"
    by blast
  from scan_down_returns [where p = pd and j = j and arr = arr and indx = indx and a = a, OF pd(1) jb pd(2)] obtain j' where
    d: "scan_down arr a indx j = Some j'" "pd \<le> j'" "j' < j" "\<not> arr (indx j') > a"
       "\<forall>q. j' < q \<and> q < j \<longrightarrow> arr (indx q) > a"
    by blast
  note unf = partition_loop_unfold [OF u(1) d(1)]
  show ?case
  proof (cases "j' < i'")
    case True
    then have "partition_loop arr a (i, j) indx = Some (i', j', indx)"
      unfolding unf by simp
    moreover have "l + 1 \<le> j'" using pd(3) d(2) by linarith
    moreover have "i' \<le> ir" using u(3) pu(4) by linarith
    ultimately show ?thesis using True less.prems(3) by blast
  next
    case False
    then have le: "i' \<le> j'" by simp
    let ?x = "SWAP i' j' indx"
    have sw: "?x i' = indx j'" "?x j' = indx i'" "\<And>q. q \<noteq> i' \<Longrightarrow> q \<noteq> j' \<Longrightarrow> ?x q = indx q"
      unfolding SWAP_def Let_def by auto
    have inv': "part_inv arr a l ir i' j' ?x"
      unfolding part_inv_def
    proof (intro conjI impI)
      show "l + 1 \<le> i'" using b(1) u(2) by linarith
      show "i' \<le> j'" by (rule le)
      show "j' \<le> ir" using d(3) b(3) by linarith
      show "ir + 1 < 2 ^ 64" by (rule b(4))
      show "\<not> arr (?x i') > a" unfolding sw using d(4) .
      show "\<not> arr (?x j') < a" unfolding sw using u(4) .
    next
      assume e: "i' = j'"
      show "l + 1 \<le> i' - 1" using b(1) u(2) by linarith
      show "j' + 1 \<le> ir" using d(3) b(3) by linarith
      have x1: "?x (i' - 1) = indx (i' - 1)" using e u(2) by (intro sw(3)) simp_all
      have "\<not> arr (indx (i' - 1)) > a"
      proof (cases "i' - 1 = i")
        case True
        then show ?thesis using ai by simp
      next
        case False
        then have "i < i' - 1 \<and> i' - 1 < i'" using u(2) by linarith
        then have "arr (indx (i' - 1)) < a" using u(5) by blast
        then show ?thesis by simp
      qed
      then show "\<not> arr (?x (i' - 1)) > a" unfolding x1 .
      have x2: "?x (j' + 1) = indx (j' + 1)" using e by (intro sw(3)) simp_all
      have "\<not> arr (indx (j' + 1)) < a"
      proof (cases "j' + 1 = j")
        case True
        then show ?thesis using aj by simp
      next
        case False
        then have "j' < j' + 1 \<and> j' + 1 < j" using d(3) by linarith
        then have "arr (indx (j' + 1)) > a" using d(5) by blast
        then show ?thesis by simp
      qed
      then show "\<not> arr (?x (j' + 1)) < a" unfolding x2 .
    qed
    have r': "index_range n ?x"
    proof (rule index_range_SWAP [OF less.prems(3)])
      show "1 \<le> i'" using u(2) by linarith
      show "i' \<le> n" using le d(3) b(3) less.prems(2) by linarith
      show "1 \<le> j'" using pd(3) d(2) by linarith
      show "j' \<le> n" using d(3) b(3) less.prems(2) by linarith
    qed
    from less.IH [OF d(3) inv' less.prems(2) r'] show ?thesis
      unfolding unf using False by simp
  qed
qed


lemma insert_scan_range:
  "index_range n indx \<Longrightarrow> i + 1 \<le> n \<Longrightarrow> index_range n (snd (insert_scan arr a i indx))"
proof (induction i arbitrary: indx)
  case 0
  then show ?case by simp
next
  case (Suc i)
  have "1 \<le> indx (Suc i) \<and> indx (Suc i) \<le> n"
    using Suc.prems unfolding index_range_def by simp
  then have "index_range n (indx(Suc i + 1 := indx (Suc i)))"
    using Suc.prems(1) by (intro index_range_upd) simp_all
  moreover have "i + 1 \<le> n" using Suc.prems(2) by simp
  ultimately have "index_range n (snd (insert_scan arr a i (indx(Suc i + 1 := indx (Suc i)))))"
    by (rule Suc.IH)
  then show ?case using Suc.prems(1) by (simp del: fun_upd_apply)
qed

lemma insert_one_range:
  assumes "index_range n indx" "1 \<le> j" "j \<le> n"
  shows "index_range n (insert_one arr j indx)"
proof -
  obtain i x where s: "insert_scan arr (arr (indx j)) (j - 1) indx = (i, x)"
    by (cases "insert_scan arr (arr (indx j)) (j - 1) indx")
  have "index_range n (snd (insert_scan arr (arr (indx j)) (j - 1) indx))"
    using assms by (intro insert_scan_range) simp_all
  then have x: "index_range n x" unfolding s by simp
  have "1 \<le> indx j \<and> indx j \<le> n" using assms unfolding index_range_def by simp
  then have "index_range n (x(i + 1 := indx j))" using x by (intro index_range_upd) simp_all
  then show ?thesis unfolding insert_one_def Let_def s by simp
qed

lemma insertion_fold_range:
  assumes "index_range n indx" "\<forall>j \<in> set js. 1 \<le> j \<and> j \<le> n"
  shows "index_range n (fold (insert_one arr) js indx)"
  using assms by (induction js arbitrary: indx) (simp_all add: insert_one_range)

lemma insertion_pass_range:
  assumes "index_range n indx" "ir \<le> n"
  shows "index_range n (insertion_pass arr l ir indx)"
  unfolding insertion_pass_def using assms by (intro insertion_fold_range) auto

lemma median_swaps_sentinels:
  assumes "l + 1 < ir"
  shows "\<not> arr (median_swaps arr l ir indx (l + 1)) > arr (median_swaps arr l ir indx l) \<and>
         \<not> arr (median_swaps arr l ir indx ir) < arr (median_swaps arr l ir indx l)"
proof -
  define x where "x = SWAP ((l + ir) div 2) (l + 1) indx"
  have d: "l \<noteq> l + 1" "l + 1 \<noteq> ir" "l \<noteq> ir" using assms by simp_all
  have "median_swaps arr l ir indx =
     (let indx = (if arr (x (l + 1)) > arr (x ir) then SWAP (l + 1) ir x else x);
          indx = (if arr (indx l) > arr (indx ir) then SWAP l ir indx else indx);
          indx = (if arr (indx (l + 1)) > arr (indx l) then SWAP (l + 1) l indx else indx)
      in indx)"
    unfolding median_swaps_def x_def Let_def ..
  then show ?thesis using d by (auto simp: SWAP_def Let_def)
qed

lemma median_swaps_range:
  assumes "index_range n indx" "1 \<le> l" "l + 1 < ir" "ir \<le> n"
  shows "index_range n (median_swaps arr l ir indx)"
proof -
  have k: "1 \<le> (l + ir) div 2" "(l + ir) div 2 \<le> n" using assms by simp_all
  have b: "1 \<le> l + 1" "l + 1 \<le> n" "1 \<le> ir" "l \<le> n" using assms by simp_all
  have r1: "index_range n (SWAP ((l + ir) div 2) (l + 1) indx)"
    using assms(1) k b by (intro index_range_SWAP) simp_all
  have r: "index_range n (if c then SWAP p q y else y)"
    if "index_range n y" "1 \<le> p" "p \<le> n" "1 \<le> q" "q \<le> n" for c p q y
    using that by (simp add: index_range_SWAP)
  show ?thesis
    unfolding median_swaps_def Let_def
    by (intro r r1 b assms)
qed


lemma stack_size_push:
  assumes "even jstack"
  shows "stack_size (istack(jstack + 2 := x, jstack + 2 - 1 := y)) (jstack + 2) =
           (x - y + 1) + stack_size istack jstack"
proof -
  obtain h where h: "jstack = 2 * h" using assms by (elim evenE)
  have same: "(istack(2 * h + 2 := x, 2 * h + 2 - 1 := y)) (2 * k) - (istack(2 * h + 2 := x, 2 * h + 2 - 1 := y)) (2 * k - 1) + 1 =
              istack (2 * k) - istack (2 * k - 1) + 1"
    if "k \<in> {1 ..< h + 1}" for k
  proof -
    have "2 * k \<noteq> 2 * h + 2" "2 * k \<noteq> 2 * h + 2 - 1" "2 * k - 1 \<noteq> 2 * h + 2" "2 * k - 1 \<noteq> 2 * h + 2 - 1"
      using that by auto
    then show ?thesis by simp
  qed
  have top: "(istack(2 * h + 2 := x, 2 * h + 2 - 1 := y)) (2 * (h + 1)) -
             (istack(2 * h + 2 := x, 2 * h + 2 - 1 := y)) (2 * (h + 1) - 1) + 1 = x - y + 1"
    by simp
  have "stack_size (istack(2 * h + 2 := x, 2 * h + 2 - 1 := y)) (2 * h + 2) =
          (\<Sum>k = 1 ..< Suc (h + 1). (istack(2 * h + 2 := x, 2 * h + 2 - 1 := y)) (2 * k) -
              (istack(2 * h + 2 := x, 2 * h + 2 - 1 := y)) (2 * k - 1) + 1)"
    unfolding stack_size_def by simp
  also have "\<dots> = (\<Sum>k = 1 ..< h + 1. (istack(2 * h + 2 := x, 2 * h + 2 - 1 := y)) (2 * k) -
              (istack(2 * h + 2 := x, 2 * h + 2 - 1 := y)) (2 * k - 1) + 1) + (x - y + 1)"
    unfolding sum.atLeastLessThan_Suc [of 1 "h + 1", simplified] top [symmetric] by simp
  also have "(\<Sum>k = 1 ..< h + 1. (istack(2 * h + 2 := x, 2 * h + 2 - 1 := y)) (2 * k) -
              (istack(2 * h + 2 := x, 2 * h + 2 - 1 := y)) (2 * k - 1) + 1) =
             (\<Sum>k = 1 ..< h + 1. istack (2 * k) - istack (2 * k - 1) + 1)"
    by (rule sum.cong [OF refl]) (rule same)
  also have "(\<Sum>k = 1 ..< h + 1. istack (2 * k) - istack (2 * k - 1) + 1) = stack_size istack (2 * h)"
    unfolding stack_size_def by simp
  finally have e: "stack_size (istack(2 * h + 2 := x, 2 * h + 2 - 1 := y)) (2 * h + 2) =
                     stack_size istack (2 * h) + (x - y + 1)" .
  show ?thesis unfolding h e by (rule add.commute)
qed

lemma stack_size_pop:
  assumes "even jstack" "jstack \<noteq> 0"
  shows "stack_size istack jstack =
           (istack jstack - istack (jstack - 1) + 1) + stack_size istack (jstack - 2)"
proof -
  obtain h where h: "jstack = 2 * h" using assms(1) by (elim evenE)
  then obtain g where g: "h = Suc g" using assms(2) by (cases h) simp_all
  have "stack_size istack (2 * Suc g) =
          (\<Sum>k = 1 ..< Suc (g + 1). istack (2 * k) - istack (2 * k - 1) + 1)"
    unfolding stack_size_def by simp
  also have "\<dots> = (\<Sum>k = 1 ..< g + 1. istack (2 * k) - istack (2 * k - 1) + 1) +
                   (istack (2 * (g + 1)) - istack (2 * (g + 1) - 1) + 1)"
    by (rule sum.atLeastLessThan_Suc) simp
  also have "(\<Sum>k = 1 ..< g + 1. istack (2 * k) - istack (2 * k - 1) + 1) = stack_size istack (2 * g)"
    unfolding stack_size_def by simp
  finally show ?thesis unfolding h g by simp
qed

lemma stack_ok_push:
  assumes "stack_ok n istack jstack" "1 \<le> y" "y \<le> x" "x \<le> n"
  shows "stack_ok n (istack(jstack + 2 := x, jstack + 2 - 1 := y)) (jstack + 2)"
proof -
  let ?s = "istack(jstack + 2 := x, jstack + 2 - 1 := y)"
  obtain h where h: "jstack = 2 * h" using assms(1) unfolding stack_ok_def by (elim conjE evenE)
  have ev: "even (jstack + 2)" unfolding h by simp
  have "1 \<le> ?s (2 * k - 1) \<and> ?s (2 * k - 1) \<le> ?s (2 * k) \<and> ?s (2 * k) \<le> n"
    if k: "1 \<le> k \<and> 2 * k \<le> jstack + 2" for k
  proof (cases "2 * k = jstack + 2")
    case True
    then have "2 * k - 1 = jstack + 2 - 1" by simp
    then show ?thesis using True assms(2-4) by simp
  next
    case False
    have le: "2 * k \<le> jstack" using False k unfolding h by presburger
    then have "2 * k \<noteq> jstack + 2" "2 * k \<noteq> jstack + 2 - 1" "2 * k - 1 \<noteq> jstack + 2" "2 * k - 1 \<noteq> jstack + 2 - 1"
      using k by auto
    then have "?s (2 * k) = istack (2 * k)" "?s (2 * k - 1) = istack (2 * k - 1)"
      by simp_all
    then show ?thesis using assms(1) k le unfolding stack_ok_def by simp
  qed
  with ev show ?thesis unfolding stack_ok_def by blast
qed

lemma stack_ok_pop:
  assumes "stack_ok n istack jstack" "jstack \<noteq> 0"
  shows "stack_ok n istack (jstack - 2) \<and>
         1 \<le> istack (jstack - 1) \<and> istack (jstack - 1) \<le> istack jstack \<and> istack jstack \<le> n"
proof -
  have ev: "even jstack" using assms(1) unfolding stack_ok_def by blast
  then obtain h where h: "jstack = 2 * h" by (elim evenE)
  have h1: "1 \<le> h" using assms(2) h by simp
  have "1 \<le> istack (2 * h - 1) \<and> istack (2 * h - 1) \<le> istack (2 * h) \<and> istack (2 * h) \<le> n"
    using assms(1) h1 unfolding stack_ok_def h by simp
  moreover have "stack_ok n istack (jstack - 2)"
    using assms(1) ev unfolding stack_ok_def by auto
  ultimately show ?thesis unfolding h by simp
qed


lemma indexx_loop_insert:
  assumes "ulong_sub (ix_ir st) (ix_l st) < M_indexx"
  shows "indexx_loop arr st =
     (if ix_jstack st = 0 then Some (insertion_pass arr (ix_l st) (ix_ir st) (ix_indx st))
      else indexx_loop arr
             \<lparr>ix_indx = insertion_pass arr (ix_l st) (ix_ir st) (ix_indx st),
              ix_istack = ix_istack st, ix_jstack = ix_jstack st - 2,
              ix_l = ix_istack st (ix_jstack st - 1), ix_ir = ix_istack st (ix_jstack st)\<rparr>)"
  by (subst indexx_loop.simps) (simp add: Let_def assms)

lemma indexx_loop_partition:
  assumes "\<not> ulong_sub (ix_ir st) (ix_l st) < M_indexx"
    and "partition_loop arr (arr (median_swaps arr (ix_l st) (ix_ir st) (ix_indx st) (ix_l st)))
           (ix_l st + 1, ix_ir st) (median_swaps arr (ix_l st) (ix_ir st) (ix_indx st)) = Some (i, j, x)"
  shows "indexx_loop arr st =
     (if ulong_add (ulong_sub (ix_ir st) i) 1 \<ge> ulong_sub j (ix_l st) then
        indexx_loop arr
          \<lparr>ix_indx = x(ix_l st := x j, j := median_swaps arr (ix_l st) (ix_ir st) (ix_indx st) (ix_l st)),
           ix_istack = (ix_istack st)(ix_jstack st + 2 := ix_ir st, ix_jstack st + 2 - 1 := i),
           ix_jstack = ix_jstack st + 2, ix_l = ix_l st, ix_ir = ulong_sub j 1\<rparr>
      else
        indexx_loop arr
          \<lparr>ix_indx = x(ix_l st := x j, j := median_swaps arr (ix_l st) (ix_ir st) (ix_indx st) (ix_l st)),
           ix_istack = (ix_istack st)(ix_jstack st + 2 := ulong_sub j 1, ix_jstack st + 2 - 1 := ix_l st),
           ix_jstack = ix_jstack st + 2, ix_l = i, ix_ir = ix_ir st\<rparr>)"
  using assms unfolding median_swaps_def
  by (subst indexx_loop.simps) (simp add: Let_def)


lemma indexx_loop_returns:
  assumes "ix_inv n st"
  shows "\<exists>ind. indexx_loop arr st = Some ind \<and> index_range n ind"
  using assms
proof (induction "ix_measure st" arbitrary: st rule: less_induct)
  case less
  let ?l = "ix_l st" and ?ir = "ix_ir st" and ?js = "ix_jstack st" and ?is = "ix_istack st"
  let ?x = "ix_indx st"
  have b: "1 \<le> ?l" "?l \<le> ?ir" "?ir \<le> n" "n + 1 < 2 ^ 64"
    and so: "stack_ok n ?is ?js" and ra: "index_range n ?x"
    using less.prems unfolding ix_inv_def by blast+
  have ev: "even ?js" using so unfolding stack_ok_def by blast
  have irb: "?ir < 2 ^ 64" using b by linarith
  have sub: "ulong_sub ?ir ?l = ?ir - ?l" using b(2) irb by (rule ulong_sub_small)
  show ?case
  proof (cases "ulong_sub ?ir ?l < M_indexx")
    case True
    let ?x1 = "insertion_pass arr ?l ?ir ?x"
    have r1: "index_range n ?x1" using ra b(3) by (rule insertion_pass_range)
    note unf = indexx_loop_insert [OF True, of arr]
    show ?thesis
    proof (cases "?js = 0")
      case True
      then show ?thesis unfolding unf using r1 by simp
    next
      case False
      let ?st' = "\<lparr>ix_indx = ?x1, ix_istack = ?is, ix_jstack = ?js - 2,
              ix_l = ?is (?js - 1), ix_ir = ?is ?js\<rparr>"
      note p = stack_ok_pop [OF so False]
      have inv': "ix_inv n ?st'"
        unfolding ix_inv_def using p r1 b(4) by simp
      have "ix_measure ?st' = stack_size ?is ?js"
        unfolding ix_measure_def using stack_size_pop [OF ev False, of ?is] by simp
      then have "ix_measure ?st' < ix_measure st"
        unfolding ix_measure_def [of st] by simp
      from less.hyps [OF this inv'] show ?thesis
        unfolding unf using False by simp
    qed
  next
    case False
    then have big: "7 \<le> ?ir - ?l" unfolding sub M_indexx_def by simp
    then have l1: "?l + 1 < ?ir" by simp
    let ?m = "median_swaps arr ?l ?ir ?x"
    let ?a = "arr (?m ?l)"
    have rm: "index_range n ?m" using ra b(1) l1 b(3) by (rule median_swaps_range)
    note se = median_swaps_sentinels [OF l1, of arr ?x]
    have pi: "part_inv arr ?a ?l ?ir (?l + 1) ?ir ?m"
      unfolding part_inv_def using se l1 b by simp
    from partition_loop_returns [OF pi b(3) rm] obtain i j x where
      pl: "partition_loop arr ?a (?l + 1, ?ir) ?m = Some (i, j, x)"
      and ij: "?l + 1 \<le> j" "j < i" "i \<le> ?ir" and rx: "index_range n x"
      by blast
    note unf = indexx_loop_partition [OF False pl]
    let ?x5 = "x(?l := x j, j := ?m ?l)"
    have jn: "1 \<le> j" "j \<le> n" using ij b by linarith+
    have "1 \<le> x j \<and> x j \<le> n" using rx jn unfolding index_range_def by simp
    moreover have "1 \<le> ?m ?l \<and> ?m ?l \<le> n"
      using rm b unfolding index_range_def by simp
    ultimately have r5: "index_range n ?x5"
      using rx by (intro index_range_upd) simp_all
    have s1: "ulong_sub ?ir i = ?ir - i" using ij(3) irb by (rule ulong_sub_small)
    have "?ir - i + 1 < 2 ^ 64" using irb b by linarith
    then have s2: "ulong_add (?ir - i) 1 = ?ir - i + 1" by (rule ulong_add_small)
    have jb: "j < 2 ^ 64" using ij irb by linarith
    have s3: "ulong_sub j ?l = j - ?l" using ij(1) jb by (intro ulong_sub_small) simp_all
    have s4: "ulong_sub j 1 = j - 1" using jn(1) jb by (rule ulong_sub_small)
    show ?thesis
    proof (cases "j - ?l \<le> ?ir - i + 1")
      case True
      let ?st' = "\<lparr>ix_indx = ?x5,
           ix_istack = ?is(?js + 2 := ?ir, ?js + 2 - 1 := i),
           ix_jstack = ?js + 2, ix_l = ?l, ix_ir = j - 1\<rparr>"
      have so': "stack_ok n (?is(?js + 2 := ?ir, ?js + 2 - 1 := i)) (?js + 2)"
        using so _ ij(3) b(3) by (rule stack_ok_push) (use ij b in linarith)
      have c: "?l \<le> j - 1" "j - 1 \<le> n" using ij b by linarith+
      have inv': "ix_inv n ?st'"
        unfolding ix_inv_def using so' r5 b c by simp
      have "ix_measure ?st' = (j - 1 - ?l + 1) + ((?ir - i + 1) + stack_size ?is ?js)"
        unfolding ix_measure_def using stack_size_push [OF ev, of ?is ?ir i] by simp
      moreover have "(j - 1 - ?l + 1) + (?ir - i + 1) < ?ir - ?l + 1" using ij b by linarith
      ultimately have "ix_measure ?st' < ix_measure st"
        unfolding ix_measure_def [of st] by linarith
      from less.hyps [OF this inv'] show ?thesis
        unfolding unf s1 s2 s3 s4 using True by simp
    next
      case False
      let ?st' = "\<lparr>ix_indx = ?x5,
           ix_istack = ?is(?js + 2 := j - 1, ?js + 2 - 1 := ?l),
           ix_jstack = ?js + 2, ix_l = i, ix_ir = ?ir\<rparr>"
      have so': "stack_ok n (?is(?js + 2 := j - 1, ?js + 2 - 1 := ?l)) (?js + 2)"
        using so b(1) by (rule stack_ok_push) (use ij b in linarith)+
      have c: "1 \<le> i" using ij by linarith
      have inv': "ix_inv n ?st'"
        unfolding ix_inv_def using so' r5 b c ij(3) by simp
      have "ix_measure ?st' = (?ir - i + 1) + ((j - 1 - ?l + 1) + stack_size ?is ?js)"
        unfolding ix_measure_def using stack_size_push [OF ev, of ?is "j - 1" ?l] by simp
      moreover have "(j - 1 - ?l + 1) + (?ir - i + 1) < ?ir - ?l + 1" using ij b by linarith
      ultimately have "ix_measure ?st' < ix_measure st"
        unfolding ix_measure_def [of st] by linarith
      from less.hyps [OF this inv'] show ?thesis
        unfolding unf s1 s2 s3 s4 using False by simp
    qed
  qed
qed

lemma indexx_init:
  "p \<le> n \<Longrightarrow> 1 \<le> p \<Longrightarrow> fold (\<lambda>j indx. indx(j := j)) [1 ..< n + 1] f p = p"
  by (induction n) auto

lemma indexx_returns:
  assumes "1 \<le> n" "n + 1 < 2 ^ 64"
  shows "\<exists>ind. indexx n arr = Some ind \<and> index_range n ind"
proof -
  have "index_range n (fold (\<lambda>j indx. indx(j := j)) [1 ..< n + 1] (\<lambda>_. 0))"
    unfolding index_range_def
  proof (intro allI impI)
    fix p assume p: "1 \<le> p \<and> p \<le> n"
    then have "fold (\<lambda>j indx. indx(j := j)) [1 ..< n + 1] (\<lambda>_. 0) p = p"
      by (intro indexx_init) simp_all
    then show "1 \<le> fold (\<lambda>j indx. indx(j := j)) [1 ..< n + 1] (\<lambda>_. 0) p \<and>
               fold (\<lambda>j indx. indx(j := j)) [1 ..< n + 1] (\<lambda>_. 0) p \<le> n"
      using p by (simp only:)
  qed
  then have "ix_inv n \<lparr>ix_indx = fold (\<lambda>j indx. indx(j := j)) [1 ..< n + 1] (\<lambda>_. 0),
        ix_istack = (\<lambda>_. 0), ix_jstack = 0, ix_l = 1, ix_ir = n\<rparr>"
    unfolding ix_inv_def stack_ok_def using assms by simp
  then show ?thesis unfolding indexx_def by (rule indexx_loop_returns)
qed

lemma route_cell_in_grid:
  assumes "1 \<le> sx" "1 \<le> k" "k \<le> sx * sy"
  shows "route_cell sx k \<in> set (sweep_cells sx sy)"
proof -
  let ?q = "k div sx" and ?r = "k mod sx"
  have r: "0 \<le> ?r" "?r < sx" using assms(1) by simp_all
  have k: "k = ?q * sx + ?r" by simp
  show ?thesis
  proof (cases "?r = 0")
    case True
    then have kq: "k = ?q * sx" using k by simp
    have "1 \<le> ?q"
    proof (rule ccontr)
      assume "\<not> 1 \<le> ?q"
      then have "?q \<le> 0" by simp
      then have "?q * sx \<le> 0" using assms(1) by (simp add: mult_le_0_iff)
      with kq assms(2) show False by simp
    qed
    moreover have "?q \<le> sy"
    proof (rule ccontr)
      assume "\<not> ?q \<le> sy"
      then have "sy + 1 \<le> ?q" by simp
      then have "(sy + 1) * sx \<le> ?q * sx" using assms(1) by (simp add: mult_right_mono)
      with kq assms(1,3) show False by (simp add: algebra_simps)
    qed
    ultimately show ?thesis
      using True assms(1) by (simp add: route_cell_def Let_def set_sweep_cells)
  next
    case False
    then have rp: "1 \<le> ?r" using r by simp
    have q0: "0 \<le> ?q" using assms(1,2) by (simp add: pos_imp_zdiv_nonneg_iff)
    have "?q < sy"
    proof (rule ccontr)
      assume "\<not> ?q < sy"
      then have "sy \<le> ?q" by simp
      then have "sy * sx \<le> ?q * sx" using assms(1) by (simp add: mult_right_mono)
      moreover have "?q * sx + ?r = k" by simp
      ultimately have "sy * sx + 1 \<le> k" using rp by linarith
      with assms(3) show False by (simp add: mult.commute)
    qed
    then show ?thesis
      using False r rp q0 by (simp add: route_cell_def Let_def set_sweep_cells)
  qed
qed

lemma route_fold_outside:
  assumes "\<forall>t \<in> set ts. route_cell sx (int (ind t)) \<in> set (sweep_cells sx sy)"
    and "c \<notin> set (sweep_cells sx sy)"
  shows "flow (fold (\<lambda>t s. case route_cell sx (int (ind t)) of (i, j) \<Rightarrow>
                       mfdflowroute (setupgridneighbors sx sy) i j nodata s) ts s) c = flow s c"
  using assms(1)
proof (induction ts arbitrary: s)
  case Nil
  show ?case by simp
next
  case (Cons t ts)
  obtain i j where ij: "route_cell sx (int (ind t)) = (i, j)" by (cases "route_cell sx (int (ind t))")
  have "(i, j) \<in> set (sweep_cells sx sy)" using Cons.prems ij by simp
  then have b: "1 \<le> i" "i \<le> sx" "1 \<le> j" "j \<le> sy" by (simp_all add: set_sweep_cells)
  have "flow (mfdflowroute (setupgridneighbors sx sy) i j nodata s) c = flow s c"
    using b assms(2) by (rule mfdflowroute_outside)
  moreover have "\<forall>t \<in> set ts. route_cell sx (int (ind t)) \<in> set (sweep_cells sx sy)"
    using Cons.prems by simp
  ultimately show ?case using Cons.IH [of "mfdflowroute (setupgridneighbors sx sy) i j nodata s"]
    by (simp add: ij)
qed

lemma route_sweep_outside:
  assumes "1 \<le> sx" "1 \<le> sy" "index_range (nat (sx * sy)) ind" "c \<notin> set (sweep_cells sx sy)"
  shows "flow (route_sweep (setupgridneighbors sx sy) sx nodata ind (nat (sx * sy)) s) c = flow s c"
proof -
  have "\<forall>t \<in> set (rev [1 ..< nat (sx * sy) + 1]). route_cell sx (int (ind t)) \<in> set (sweep_cells sx sy)"
  proof
    fix t assume "t \<in> set (rev [1 ..< nat (sx * sy) + 1])"
    then have "1 \<le> t \<and> t \<le> nat (sx * sy)" by auto
    then have "1 \<le> ind t \<and> ind t \<le> nat (sx * sy)"
      using assms(3) unfolding index_range_def by blast
    then have "1 \<le> int (ind t)" "int (ind t) \<le> sx * sy" by linarith+
    with assms(1) show "route_cell sx (int (ind t)) \<in> set (sweep_cells sx sy)"
      by (rule route_cell_in_grid)
  qed
  from route_fold_outside [OF this assms(4)] show ?thesis unfolding route_sweep_def .
qed

lemma fillin_returns:
  assumes "1 \<le> sx" "1 \<le> sy" "sx * sy + 1 < 2 ^ 64"
    and "fill_pass (fill_env_of sx sy nodata) (sweep_cells sx sy) (\<lambda>(i, j). dem (j - 1, i - 1)) = Some tp"
  shows "\<exists>ind. indexx (nat (sx * sy)) (topovec_of sx sy tp) = Some ind \<and>
           index_range (nat (sx * sy)) ind \<and>
           fillin dem sx sy deltax deltay nodata =
             Some (route_sweep (setupgridneighbors sx sy) sx nodata ind (nat (sx * sy))
                     (start_lattice tp deltax deltay))"
proof -
  have "1 * 1 \<le> sx * sy" using assms(1,2) by (intro mult_mono) simp_all
  then have "1 \<le> sx * sy" by simp
  then have n1: "1 \<le> nat (sx * sy)" by simp
  have "nat (sx * sy) + 1 = nat (sx * sy + 1)" using \<open>1 \<le> sx * sy\<close> by simp
  also have "\<dots> < 2 ^ 64" using assms(3) by (simp add: nat_less_iff)
  finally have n2: "nat (sx * sy) + 1 < 2 ^ 64" .
  from indexx_returns [OF n1 n2, of "topovec_of sx sy tp"] obtain ind where
    i: "indexx (nat (sx * sy)) (topovec_of sx sy tp) = Some ind" "index_range (nat (sx * sy)) ind"
    by blast
  have "fillin dem sx sy deltax deltay nodata =
          Some (route_sweep (setupgridneighbors sx sy) sx nodata ind (nat (sx * sy))
                  (start_lattice tp deltax deltay))"
    by (simp add: fillin_def Let_def assms(4) i(1))
  with i show ?thesis by blast
qed

lemma two_lower_proxies:
  "unit_proxy (setupgridneighbors 3 3) (- 9999) (topo two_lower) 2 2 d =
     (if d = Iup \<or> d = Jup then 1 else 0)"
  by (cases d) (simp_all add: unit_proxy_def lower_valid_def two_lower_def pow11_def
      iup_setup idown_setup jup_setup jdown_setup)

lemma two_lower_flow1:
  "flow1 (mfdflowroute (setupgridneighbors 3 3) 2 2 (- 9999) two_lower) (2, 2) = 1 / 2"
proof -
  have "flow1 (mfdflowroute (setupgridneighbors 3 3) 2 2 (- 9999) two_lower) (2, 2) =
        fraction_of Iup (mfd_fractions (setupgridneighbors 3 3) 2 2 (- 9999) two_lower) (2, 2)"
    using mfdflowroute_fraction [of Iup] by simp
  also have "\<dots> = 1 / 2"
    unfolding fraction_of_mfd_fractions mfd_tot_sum two_lower_proxies
    by (simp add: directions_def lower_valid_def two_lower_def iup_setup)
  finally show ?thesis .
qed

lemma two_lower_spec_proxies:
  "spec_proxy 2 1 (setupgridneighbors 3 3) (- 9999) (topo two_lower) 2 2 d =
     (if d = Iup then pow11 (1 / 2) else if d = Jup then 1 else 0)"
  by (cases d) (simp_all add: spec_proxy_def lower_valid_def two_lower_def pow11_def
      neighbor_distance_def iup_setup idown_setup jup_setup jdown_setup)

lemma two_lower_spec_fraction:
  "spec_fraction 2 1 (setupgridneighbors 3 3) (- 9999) (topo two_lower) 2 2 Iup < 1 / 2"
proof -
  have p0: "0 < pow11 (1 / 2)" by (simp add: pow11_def)
  have "(1 / 2 :: real) powr 1.1 < 1 powr 1.1" by (rule powr_less_mono2) simp_all
  then have p1: "pow11 (1 / 2) < 1" by (simp add: pow11_def)
  have "spec_fraction 2 1 (setupgridneighbors 3 3) (- 9999) (topo two_lower) 2 2 Iup =
        pow11 (1 / 2) / (pow11 (1 / 2) + 1)"
    unfolding spec_fraction_def two_lower_spec_proxies by (simp add: directions_def)
  also have "\<dots> < 1 / 2" using p0 p1 by (simp add: field_simps)
  finally show ?thesis .
qed

text \<open>
  Claim C1, as the code has it.  For a cell \<open>(i, j)\<close> that is not nodata, the fraction that
  \<^verbatim>\<open>mfdflowroute\<close> stores for direction \<open>d\<close> is \<open>0\<close> when the neighbor is not strictly lower
  or is nodata, and otherwise the slope proxy of \<open>d\<close> divided by the sum of the eight
  proxies.  The proxy is \<open>(drop * w) ^ 1.1\<close> with \<open>w = 1\<close> for the four axis-aligned
  neighbors and \<open>w = 0.707106781187\<close> for the four diagonal ones; the cell sizes
  \<open>deltax\<close> and \<open>deltay\<close> do not occur in it.
\<close>

theorem mfdflowroute_fraction_formula:
  assumes "topo s (i, j) \<noteq> nodata"
  shows "fraction_of d (mfdflowroute nb i j nodata s) (i, j) =
           (if lower_valid nodata (topo s) (i, j) (neighbor_cell nb i j d)
            then unit_proxy nb nodata (topo s) i j d /
                   (\<Sum>d' \<leftarrow> directions. unit_proxy nb nodata (topo s) i j d')
            else 0) \<and>
         unit_proxy nb nodata (topo s) i j d =
           (if lower_valid nodata (topo s) (i, j) (neighbor_cell nb i j d)
            then ((topo s (i, j) - topo s (neighbor_cell nb i j d)) *
                    (if diagonal d then 0.707106781187 else 1)) powr 1.1
            else 0)"
proof
  show "fraction_of d (mfdflowroute nb i j nodata s) (i, j) =
           (if lower_valid nodata (topo s) (i, j) (neighbor_cell nb i j d)
            then unit_proxy nb nodata (topo s) i j d /
                   (\<Sum>d' \<leftarrow> directions. unit_proxy nb nodata (topo s) i j d')
            else 0)"
    using assms by (simp add: mfdflowroute_fraction fraction_of_mfd_fractions mfd_tot_sum)
  show "unit_proxy nb nodata (topo s) i j d =
           (if lower_valid nodata (topo s) (i, j) (neighbor_cell nb i j d)
            then ((topo s (i, j) - topo s (neighbor_cell nb i j d)) *
                    (if diagonal d then 0.707106781187 else 1)) powr 1.1
            else 0)"
    by (simp add: unit_proxy_def pow11_def oneoversqrt2_def)
qed

theorem mfdflowroute_fraction_formula_witness:
  "topo two_lower (2, 2) \<noteq> - 9999 \<and>
   fraction_of Iup (mfdflowroute (setupgridneighbors 3 3) 2 2 (- 9999) two_lower) (2, 2) = 1 / 2"
proof -
  have v: "topo two_lower (2, 2) \<noteq> - 9999" by (simp add: two_lower_def)
  have l: "lower_valid (- 9999) (topo two_lower) (2, 2) (neighbor_cell (setupgridneighbors 3 3) 2 2 Iup)"
    by (simp add: lower_valid_def two_lower_def iup_setup)
  have "fraction_of Iup (mfdflowroute (setupgridneighbors 3 3) 2 2 (- 9999) two_lower) (2, 2) = 1 / 2"
    using mfdflowroute_fraction_formula [OF v, of Iup "setupgridneighbors 3 3", THEN conjunct1] l
    unfolding two_lower_proxies by (simp add: directions_def)
  with v show ?thesis by blast
qed

text \<open>
  The claim as stated divides the drop by the metric distance to the neighbor.  With
  \<open>deltax = 2\<close> and \<open>deltay = 1\<close> on the lattice \<open>two_lower\<close> the code gives the neighbor
  \<open>(3, 2)\<close> the fraction \<open>1/2\<close>, the stated formula less than \<open>1/2\<close>.
\<close>

theorem mfdflowroute_metric_distance_counterexample:
  "flow1 (mfdflowroute (setupgridneighbors 3 3) 2 2 (- 9999) two_lower) (2, 2) = 1 / 2 \<and>
   spec_fraction 2 1 (setupgridneighbors 3 3) (- 9999) (topo two_lower) 2 2 Iup < 1 / 2"
  using two_lower_flow1 two_lower_spec_fraction by blast

lemma grid_total_two_lower: "grid_total 3 3 (flow two_lower) = 9"
  by (simp add: grid_total_def sweep_cells_def upto_rec1 two_lower_def)

text \<open>
  Claim C4, as the code has it.  \<^verbatim>\<open>fillin\<close> returns the result of the routing sweep from the
  matrices in which every cell, nodata or not, has \<^verbatim>\<open>flow = deltax*deltay\<close>.  A routing step
  at \<open>(i, j)\<close> adds to every cell \<open>p\<close> the flow of \<open>(i, j)\<close> times the fractions of the
  directions whose clamped neighbor is \<open>p\<close>, and nothing else.  At a cell of the grid the
  step leaves \<^verbatim>\<open>flow[i][j]\<close> unchanged, the total of \<^verbatim>\<open>flow\<close> over the grid grows by exactly
  \<^verbatim>\<open>flow[i][j]\<close> when the cell is not nodata and has a strictly lower non-nodata neighbor (its
  fractions then sum to \<open>1\<close>) and stays the same otherwise, and no entry outside the grid is
  written.  So flow is accumulated and never taken away: with \<open>deltax * deltay \<ge> 0\<close>, after
  the sweep in any order of visit every cell has at least \<open>deltax * deltay\<close>, and on every
  grid on which \<^verbatim>\<open>fillin\<close> returns the total over the grid is at least
  \<open>lattice_size_x * lattice_size_y * deltax * deltay\<close>, which is at least the area of the
  active cells.  On a grid with at least one row and one column (and fewer than \<open>2^64 - 1\<close>
  cells) \<^verbatim>\<open>fillin\<close> returns whenever the sink/flat elimination pass returns: the index sort
  always returns, with positions of the grid, so the sweep visits cells of the grid only and
  leaves every entry outside the grid as it was.  In particular \<^verbatim>\<open>fillin\<close> returns on every
  such grid whose elevations all lie above the nodata value.
\<close>

theorem fillin_flow_accumulates:
  "(\<forall>c. flow (start_lattice tp deltax deltay) c = deltax * deltay) \<and>
   (fillin dem sx sy deltax deltay nodata = Some r \<longleftrightarrow>
      (\<exists>tp ind.
         fill_pass (fill_env_of sx sy nodata) (sweep_cells sx sy) (\<lambda>(i, j). dem (j - 1, i - 1)) = Some tp \<and>
         indexx (nat (sx * sy)) (topovec_of sx sy tp) = Some ind \<and>
         r = route_sweep (setupgridneighbors sx sy) sx nodata ind (nat (sx * sy))
               (start_lattice tp deltax deltay))) \<and>
   (\<forall>p. flow (mfdflowroute nb i j nodata s) p =
      flow s p + flow s (i, j) *
        (\<Sum>d \<leftarrow> directions. if neighbor_cell nb i j d = p
                              then fraction_of d (mfdflowroute nb i j nodata s) (i, j) else 0)) \<and>
   (1 \<le> i \<and> i \<le> sx \<and> 1 \<le> j \<and> j \<le> sy \<longrightarrow>
      grid_total sx sy (flow (mfdflowroute (setupgridneighbors sx sy) i j nodata s)) =
        grid_total sx sy (flow s) + flow s (i, j) *
          (if topo s (i, j) \<noteq> nodata \<and>
              (\<exists>d \<in> set directions. lower_valid nodata (topo s) (i, j)
                 (neighbor_cell (setupgridneighbors sx sy) i j d))
           then 1 else 0) \<and>
      flow (mfdflowroute (setupgridneighbors sx sy) i j nodata s) (i, j) = flow s (i, j) \<and>
      (\<forall>c. c \<notin> set (sweep_cells sx sy) \<longrightarrow>
           flow (mfdflowroute (setupgridneighbors sx sy) i j nodata s) c = flow s c)) \<and>
   (0 \<le> deltax * deltay \<longrightarrow>
      (\<forall>c. deltax * deltay \<le> flow (route_sweep nb sx nodata ind n (start_lattice tp deltax deltay)) c)) \<and>
   (0 \<le> deltax * deltay \<and> fillin dem sx sy deltax deltay nodata = Some r \<longrightarrow>
      (\<forall>c. deltax * deltay \<le> flow r c) \<and>
      real (nat sx * nat sy) * (deltax * deltay) \<le> grid_total sx sy (flow r) \<and>
      active_area dem sx sy deltax deltay nodata \<le> grid_total sx sy (flow r)) \<and>
   (1 \<le> sx \<and> 1 \<le> sy \<and> sx * sy + 1 < 2 ^ 64 \<and>
    fill_pass (fill_env_of sx sy nodata) (sweep_cells sx sy) (\<lambda>(i, j). dem (j - 1, i - 1)) = Some filled \<longrightarrow>
      (\<exists>r'. fillin dem sx sy deltax deltay nodata = Some r' \<and>
            (\<forall>c. c \<notin> set (sweep_cells sx sy) \<longrightarrow> flow r' c = deltax * deltay))) \<and>
   (1 \<le> sx \<and> 1 \<le> sy \<and> sx * sy + 1 < 2 ^ 64 \<and>
    (\<forall>i j. 1 \<le> i \<and> i \<le> sx \<and> 1 \<le> j \<and> j \<le> sy \<longrightarrow> nodata < dem (j - 1, i - 1)) \<longrightarrow>
      (\<exists>r'. fillin dem sx sy deltax deltay nodata = Some r'))"
proof (intro conjI allI impI)
  fix c
  show "flow (start_lattice tp deltax deltay) c = deltax * deltay"
    by (simp add: start_lattice_def)
next
  show "fillin dem sx sy deltax deltay nodata = Some r \<longleftrightarrow>
      (\<exists>tp ind.
         fill_pass (fill_env_of sx sy nodata) (sweep_cells sx sy) (\<lambda>(i, j). dem (j - 1, i - 1)) = Some tp \<and>
         indexx (nat (sx * sy)) (topovec_of sx sy tp) = Some ind \<and>
         r = route_sweep (setupgridneighbors sx sy) sx nodata ind (nat (sx * sy))
               (start_lattice tp deltax deltay))"
    by (rule fillin_Some_iff)
next
  fix p
  show "flow (mfdflowroute nb i j nodata s) p =
      flow s p + flow s (i, j) *
        (\<Sum>d \<leftarrow> directions. if neighbor_cell nb i j d = p
                              then fraction_of d (mfdflowroute nb i j nodata s) (i, j) else 0)"
    by (rule mfdflowroute_cell)
next
  assume a: "1 \<le> i \<and> i \<le> sx \<and> 1 \<le> j \<and> j \<le> sy"
  then have b: "1 \<le> i" "i \<le> sx" "1 \<le> j" "j \<le> sy" by blast+
  show "grid_total sx sy (flow (mfdflowroute (setupgridneighbors sx sy) i j nodata s)) =
        grid_total sx sy (flow s) + flow s (i, j) *
          (if topo s (i, j) \<noteq> nodata \<and>
              (\<exists>d \<in> set directions. lower_valid nodata (topo s) (i, j)
                 (neighbor_cell (setupgridneighbors sx sy) i j d))
           then 1 else 0)"
    using mfdflowroute_total_aux [OF b] by blast
  show "flow (mfdflowroute (setupgridneighbors sx sy) i j nodata s) (i, j) = flow s (i, j)"
    using mfdflowroute_total_aux [OF b] by blast
  fix c
  assume "c \<notin> set (sweep_cells sx sy)"
  with b show "flow (mfdflowroute (setupgridneighbors sx sy) i j nodata s) c = flow s c"
    by (rule mfdflowroute_outside)
next
  fix c
  assume "0 \<le> deltax * deltay"
  then have "\<forall>c. 0 \<le> flow (start_lattice tp deltax deltay) c"
    by (simp add: start_lattice_def)
  from route_sweep_mono [OF this, of c nb sx nodata ind n]
  show "deltax * deltay \<le> flow (route_sweep nb sx nodata ind n (start_lattice tp deltax deltay)) c"
    by (simp add: start_lattice_def)
next
  assume a: "0 \<le> deltax * deltay \<and> fillin dem sx sy deltax deltay nodata = Some r"
  then obtain tp ind where
    r: "r = route_sweep (setupgridneighbors sx sy) sx nodata ind (nat (sx * sy))
               (start_lattice tp deltax deltay)"
    unfolding fillin_Some_iff by blast
  have "\<forall>c. 0 \<le> flow (start_lattice tp deltax deltay) c"
    using a by (simp add: start_lattice_def)
  from route_sweep_mono [OF this]
  have ge: "\<forall>c. deltax * deltay \<le> flow r c"
    unfolding r by (simp add: start_lattice_def)
  then show "deltax * deltay \<le> flow r c" for c by blast
  from grid_total_ge [OF ge, of sx sy]
  show t: "real (nat sx * nat sy) * (deltax * deltay) \<le> grid_total sx sy (flow r)"
    by (simp add: length_sweep_cells)
  from active_area_le [of deltax deltay dem sx sy nodata] a t
  show "active_area dem sx sy deltax deltay nodata \<le> grid_total sx sy (flow r)"
    by (simp add: length_sweep_cells)
next
  assume a: "1 \<le> sx \<and> 1 \<le> sy \<and> sx * sy + 1 < 2 ^ 64 \<and>
    fill_pass (fill_env_of sx sy nodata) (sweep_cells sx sy) (\<lambda>(i, j). dem (j - 1, i - 1)) = Some filled"
  then have d: "1 \<le> sx" "1 \<le> sy" "sx * sy + 1 < 2 ^ 64"
    and f: "fill_pass (fill_env_of sx sy nodata) (sweep_cells sx sy) (\<lambda>(i, j). dem (j - 1, i - 1)) = Some filled"
    by blast+
  from fillin_returns [OF d f, of deltax deltay] obtain ind where
    i: "index_range (nat (sx * sy)) ind"
    and r: "fillin dem sx sy deltax deltay nodata =
             Some (route_sweep (setupgridneighbors sx sy) sx nodata ind (nat (sx * sy))
                     (start_lattice filled deltax deltay))"
    by blast
  have "\<forall>c. c \<notin> set (sweep_cells sx sy) \<longrightarrow>
          flow (route_sweep (setupgridneighbors sx sy) sx nodata ind (nat (sx * sy))
                  (start_lattice filled deltax deltay)) c = deltax * deltay"
    using route_sweep_outside [OF d(1,2) i] by (simp add: start_lattice_def)
  with r show "\<exists>r'. fillin dem sx sy deltax deltay nodata = Some r' \<and>
            (\<forall>c. c \<notin> set (sweep_cells sx sy) \<longrightarrow> flow r' c = deltax * deltay)"
    by blast
next
  assume a: "1 \<le> sx \<and> 1 \<le> sy \<and> sx * sy + 1 < 2 ^ 64 \<and>
    (\<forall>i j. 1 \<le> i \<and> i \<le> sx \<and> 1 \<le> j \<and> j \<le> sy \<longrightarrow> nodata < dem (j - 1, i - 1))"
  then have d: "1 \<le> sx" "1 \<le> sy" "sx * sy + 1 < 2 ^ 64" by blast+
  have "\<forall>c \<in> set (sweep_cells sx sy). nodata < (\<lambda>(i, j). dem (j - 1, i - 1)) c"
    using a by (auto simp: set_sweep_cells)
  from fill_pass_returns_valid [OF this, of "sweep_cells sx sy"] obtain tp' where
    f: "fill_pass (fill_env_of sx sy nodata) (sweep_cells sx sy) (\<lambda>(i, j). dem (j - 1, i - 1)) = Some tp'"
    by blast
  from fillin_returns [OF d f, of deltax deltay]
  show "\<exists>r'. fillin dem sx sy deltax deltay nodata = Some r'" by blast
qed

theorem fillin_flow_accumulates_witness:
  "(\<exists>r. fillin dem21 2 1 1 1 (- 9999) = Some r \<and>
        real (nat 2 * nat 1) * (1 * 1) \<le> grid_total 2 1 (flow r) \<and>
        active_area dem21 2 1 1 1 (- 9999) \<le> grid_total 2 1 (flow r)) \<and>
   (0 :: real) \<le> 1 * 1 \<and>
   grid_total 3 3 (flow (mfdflowroute (setupgridneighbors 3 3) 2 2 (- 9999) two_lower)) = 10 \<and>
   flow (mfdflowroute (setupgridneighbors 3 3) 2 2 (- 9999) two_lower) (2, 2) = 1 \<and>
   (\<exists>r'. fillin dem21 2 1 1 1 (- 9999) = Some r' \<and> flow r' (0, 0) = 1 * 1)"
proof -
  have d: "(1 :: int) \<le> 2 \<and> (1 :: int) \<le> 1 \<and> (2 :: int) * 1 + 1 < 2 ^ 64" by simp
  have o: "(0, 0) \<notin> set (sweep_cells 2 1)" by (simp add: set_sweep_cells)
  note c7 = fillin_flow_accumulates [where dem = dem21 and sx = 2 and sy = 1 and nodata = "- 9999"
      and filled = "\<lambda>(i, j). dem21 (j - 1, i - 1)" and deltax = 1 and deltay = 1,
      THEN conjunct2, THEN conjunct2, THEN conjunct2, THEN conjunct2, THEN conjunct2, THEN conjunct2,
      THEN conjunct1]
  from c7 [THEN mp, OF conjI [OF conjunct1 [OF d] conjI [OF conjunct1 [OF conjunct2 [OF d]]
      conjI [OF conjunct2 [OF conjunct2 [OF d]] fill21]]]]
  obtain r' where r': "fillin dem21 2 1 1 1 (- 9999) = Some r'"
    "\<forall>c. c \<notin> set (sweep_cells 2 1) \<longrightarrow> flow r' c = 1 * 1"
    by blast
  from r'(2) o have "flow r' (0, 0) = 1 * 1" by blast
  with r'(1) have third: "\<exists>r'. fillin dem21 2 1 1 1 (- 9999) = Some r' \<and> flow r' (0, 0) = 1 * 1"
    by blast
  obtain r where r: "fillin dem21 2 1 1 1 (- 9999) = Some r"
    using fillin21 by blast
  have p: "(0 :: real) \<le> 1 * 1" by simp
  from fillin_flow_accumulates [of _ 1 1 dem21 2 1 "- 9999" r] p r
  have "real (nat 2 * nat 1) * (1 * 1) \<le> grid_total 2 1 (flow r) \<and>
        active_area dem21 2 1 1 1 (- 9999) \<le> grid_total 2 1 (flow r)"
    by blast
  with r have first: "\<exists>r. fillin dem21 2 1 1 1 (- 9999) = Some r \<and>
        real (nat 2 * nat 1) * (1 * 1) \<le> grid_total 2 1 (flow r) \<and>
        active_area dem21 2 1 1 1 (- 9999) \<le> grid_total 2 1 (flow r)"
    by blast
  have v: "topo two_lower (2, 2) \<noteq> - 9999" by (simp add: two_lower_def)
  have l: "\<exists>d \<in> set directions. lower_valid (- 9999) (topo two_lower) (2, 2)
             (neighbor_cell (setupgridneighbors 3 3) 2 2 d)"
    by (rule bexI [where x = Iup]) (simp_all add: directions_def lower_valid_def two_lower_def iup_setup)
  have f: "flow two_lower (2, 2) = 1" by (simp add: two_lower_def)
  have g: "(1 :: int) \<le> 2 \<and> (2 :: int) \<le> 3 \<and> (1 :: int) \<le> 2 \<and> (2 :: int) \<le> 3" by simp
  from fillin_flow_accumulates [of _ _ _ _ 3 3 "- 9999" _ _ 2 2 two_lower] g
  have "grid_total 3 3 (flow (mfdflowroute (setupgridneighbors 3 3) 2 2 (- 9999) two_lower)) =
          grid_total 3 3 (flow two_lower) + flow two_lower (2, 2) *
            (if topo two_lower (2, 2) \<noteq> - 9999 \<and>
                (\<exists>d \<in> set directions. lower_valid (- 9999) (topo two_lower) (2, 2)
                   (neighbor_cell (setupgridneighbors 3 3) 2 2 d))
             then 1 else 0) \<and>
        flow (mfdflowroute (setupgridneighbors 3 3) 2 2 (- 9999) two_lower) (2, 2) = flow two_lower (2, 2)"
    by blast
  then have "grid_total 3 3 (flow (mfdflowroute (setupgridneighbors 3 3) 2 2 (- 9999) two_lower)) = 10 \<and>
        flow (mfdflowroute (setupgridneighbors 3 3) 2 2 (- 9999) two_lower) (2, 2) = 1"
    using v l f grid_total_two_lower by simp
  with first p third show ?thesis by blast
qed

text \<open>
  The claim as stated equates the grid total after \<^verbatim>\<open>fillin\<close> with the area of the active
  cells.  On the DEM with one row and the two elevations \<open>2\<close> and \<open>1\<close>, with unit cell
  size, the total is \<open>3\<close> and the active area is \<open>2\<close>.
\<close>

theorem total_flow_counterexample:
  "total_flow dem21 2 1 1 1 (- 9999) = Some 3 \<and> active_area dem21 2 1 1 1 (- 9999) = 2"
  using total_flow21 active_area21 by blast

section \<open>Properties of the wetness-index loop\<close>






text \<open>The entries that one round of the loop writes for its cell.\<close>

lemma topindex_cell_tanbeta_pixel:
  "tanbeta_pixel (topindex_cell dem flowacc columns rows deltax deltay nodata (y, x) w) c =
     (if c = (y, x) then
        (case slope_sums dem columns rows deltax deltay nodata x y (contour_length w (y, x)) (tanbeta w (y, x)) of
           (cl, tb, lower) \<Rightarrow>
             if lower = 0 then tanbeta_floor deltax deltay
             else if tb / cl < tanbeta_floor deltax deltay then tanbeta_floor deltax deltay
             else tb / cl)
      else tanbeta_pixel w c)"
  by (simp add: topindex_cell_def Let_def split: prod.splits)




lemma topindex_cell_floor:
  "tanbeta_floor deltax deltay \<le>
     tanbeta_pixel (topindex_cell dem flowacc columns rows deltax deltay nodata yx w) yx"
  by (cases yx) (simp add: topindex_cell_tanbeta_pixel split: prod.splits)

lemma fold_topindex_floor:
  assumes "\<forall>c \<in> S. tanbeta_floor deltax deltay \<le> tanbeta_pixel w c"
  shows "\<forall>c \<in> S \<union> set cs. tanbeta_floor deltax deltay \<le>
           tanbeta_pixel (fold (topindex_cell dem flowacc columns rows deltax deltay nodata) cs w) c"
  using assms
proof (induction cs arbitrary: w S)
  case Nil
  then show ?case by simp
next
  case (Cons a cs)
  let ?w = "topindex_cell dem flowacc columns rows deltax deltay nodata a w"
  have "\<forall>c \<in> insert a S. tanbeta_floor deltax deltay \<le> tanbeta_pixel ?w c"
  proof
    fix c assume c: "c \<in> insert a S"
    show "tanbeta_floor deltax deltay \<le> tanbeta_pixel ?w c"
    proof (cases "c = a")
      case True
      then show ?thesis by (simp add: topindex_cell_floor)
    next
      case False
      with c have "c \<in> S" by simp
      then have "tanbeta_floor deltax deltay \<le> tanbeta_pixel w c" using Cons.prems by simp
      with False show ?thesis by (cases a) (simp add: topindex_cell_tanbeta_pixel)
    qed
  qed
  from Cons.IH [OF this] show ?case by simp
qed



text \<open>
  Claim C6.  After the loop, \<^verbatim>\<open>tanbeta_pixel\<close> of every processed cell is at least the fixed
  floor \<open>(4 (0.5 VERTRES / length_diagonal) + 2 (0.5 VERTRES / dx) + 2 (0.5 VERTRES / dy)) / 8\<close>.
  In one round, the cell gets the floor when it has no lower valid neighbor
  (\<^verbatim>\<open>lower == 0\<close>), the floor again when the weighted mean \<^verbatim>\<open>tanbeta / contour_length\<close> of its
  lower neighbors is smaller than the floor, and that mean otherwise.
\<close>

theorem tanbeta_pixel_floor:
  "(\<forall>c \<in> set cells. tanbeta_floor deltax deltay \<le>
       tanbeta_pixel (Topindex_loop dem flowacc columns rows deltax deltay nodata cells w) c) \<and>
   tanbeta_pixel (topindex_cell dem flowacc columns rows deltax deltay nodata (y, x) w) (y, x) =
     (case slope_sums dem columns rows deltax deltay nodata x y (contour_length w (y, x)) (tanbeta w (y, x)) of
        (cl, tb, lower) \<Rightarrow>
          if lower = 0 then tanbeta_floor deltax deltay
          else if tb / cl < tanbeta_floor deltax deltay then tanbeta_floor deltax deltay
          else tb / cl) \<and>
   tanbeta_floor deltax deltay =
     (4 * ((0.5 * 2.3) / sqrt (deltax ^ 2 + deltay ^ 2)) + 2 * ((0.5 * 2.3) / deltax) +
      2 * ((0.5 * 2.3) / deltay)) / 8"
proof (intro conjI)
  have "\<forall>c \<in> {} \<union> set (rev cells). tanbeta_floor deltax deltay \<le>
          tanbeta_pixel (fold (topindex_cell dem flowacc columns rows deltax deltay nodata) (rev cells) w) c"
    by (rule fold_topindex_floor) simp
  then show "\<forall>c \<in> set cells. tanbeta_floor deltax deltay \<le>
       tanbeta_pixel (Topindex_loop dem flowacc columns rows deltax deltay nodata cells w) c"
    by (simp add: Topindex_loop_def)
  show "tanbeta_pixel (topindex_cell dem flowacc columns rows deltax deltay nodata (y, x) w) (y, x) =
     (case slope_sums dem columns rows deltax deltay nodata x y (contour_length w (y, x)) (tanbeta w (y, x)) of
        (cl, tb, lower) \<Rightarrow>
          if lower = 0 then tanbeta_floor deltax deltay
          else if tb / cl < tanbeta_floor deltax deltay then tanbeta_floor deltax deltay
          else tb / cl)"
    by (simp add: topindex_cell_tanbeta_pixel)
  show "tanbeta_floor deltax deltay =
     (4 * ((0.5 * 2.3) / sqrt (deltax ^ 2 + deltay ^ 2)) + 2 * ((0.5 * 2.3) / deltax) +
      2 * ((0.5 * 2.3) / deltay)) / 8"
    by (simp add: tanbeta_floor_def VERTRES_def)
qed

theorem tanbeta_pixel_floor_witness:
  "tanbeta_floor 3 4 \<le>
     tanbeta_pixel (Topindex_loop dem22 (\<lambda>_. 12) 2 2 3 4 (- 9999) [(1, 1), (0, 0)] wetness0) (0, 0)"
  using tanbeta_pixel_floor [of "[(1, 1), (0, 0)]" 3 4 dem22 "\<lambda>_. 12" 2 2 "- 9999" wetness0, THEN conjunct1]
  by simp



section \<open>Properties of the profile builder\<close>

lemma bin_step_row0:
  assumes "bin_step VIC n sea T ac WetBins i b = Some b'"
  shows "bin_counter b < WetBins \<and>
    (if to_double ((WetlandBin b (0, bin_counter b) + 1) / real_of_int T) \<ge> ac \<or> i = n - 1
     then bin_counter b' = bin_counter b + 1 \<and> bin_cnt b' = 0 \<and>
          WetlandBin b' (0, bin_counter b) =
            to_double ((WetlandBin b (0, bin_counter b) + 1) / real_of_int T)
     else bin_counter b' = bin_counter b \<and> bin_cnt b' = bin_cnt b + 1 \<and>
          WetlandBin b' (0, bin_counter b) = WetlandBin b (0, bin_counter b) + 1) \<and>
    (\<forall>k. k \<noteq> bin_counter b \<longrightarrow> WetlandBin b' (0, k) = WetlandBin b (0, k))"
proof -
  have c: "bin_counter b < WetBins"
    using assms by (auto simp: bin_step_def Let_def split: if_splits)
  show ?thesis
  proof (cases sea)
    case True
    with assms c show ?thesis
      by (auto simp: bin_step_def Let_def upt_conv_Cons split: if_splits)
  next
    case False
    with assms c show ?thesis
      by (auto simp: bin_step_def Let_def split: if_splits)
  qed
qed

lemma bin_step_inv:
  assumes op: "bins_open_ok ac T b" and cl: "bins_closed_ok ac T b"
    and st: "bin_step VIC n sea T ac WetBins i b = Some b'"
    and ni: "i \<noteq> n - 1"
  shows "bins_open_ok ac T b' \<and> bins_closed_ok ac T b'"
proof -
  let ?c = "bin_counter b"
  let ?q = "\<lambda>m. to_double (real m / real_of_int T)"
  note r = bin_step_row0 [OF st]
  have w: "WetlandBin b (0, ?c) = real (bin_cnt b)"
    and lt: "\<And>m'. 1 \<le> m' \<Longrightarrow> m' \<le> bin_cnt b \<Longrightarrow> ?q m' < ac"
    and z: "\<And>k. k > ?c \<Longrightarrow> WetlandBin b (0, k) = 0"
    using op unfolding bins_open_ok_def by blast+
  have other: "\<And>k. k \<noteq> ?c \<Longrightarrow> WetlandBin b' (0, k) = WetlandBin b (0, k)"
    using r by blast
  have clk: "\<And>k. k < ?c \<Longrightarrow> \<exists>m \<ge> 1. WetlandBin b (0, k) = ?q m \<and>
               (\<forall>m'. 1 \<le> m' \<and> m' < m \<longrightarrow> ?q m' < ac) \<and> ac \<le> WetlandBin b (0, k)"
    using cl unfolding bins_closed_ok_def by blast
  have suc: "real (bin_cnt b) + 1 = real (bin_cnt b + 1)" by simp
  show ?thesis
  proof (cases "?q (bin_cnt b + 1) \<ge> ac")
    case True
    then have c': "bin_counter b' = ?c + 1" and n': "bin_cnt b' = 0"
      and v: "WetlandBin b' (0, ?c) = ?q (bin_cnt b + 1)"
      using r unfolding w suc by simp_all
    have "bins_open_ok ac T b'"
      unfolding bins_open_ok_def c' n' using z other by simp
    moreover have "bins_closed_ok ac T b'"
      unfolding bins_closed_ok_def c'
    proof (intro allI impI)
      fix k assume "k < ?c + 1"
      then consider "k < ?c" | "k = ?c" by linarith
      then show "\<exists>m \<ge> 1. WetlandBin b' (0, k) = ?q m \<and>
               (\<forall>m'. 1 \<le> m' \<and> m' < m \<longrightarrow> ?q m' < ac) \<and> ac \<le> WetlandBin b' (0, k)"
      proof cases
        case 1
        then show ?thesis using clk [OF 1] other [of k] by simp
      next
        case 2
        have "1 \<le> bin_cnt b + 1" by simp
        moreover have "WetlandBin b' (0, k) = ?q (bin_cnt b + 1)" using v 2 by simp
        moreover have "\<forall>m'. 1 \<le> m' \<and> m' < bin_cnt b + 1 \<longrightarrow> ?q m' < ac"
          using lt by simp
        moreover have "ac \<le> WetlandBin b' (0, k)" using v 2 True by simp
        ultimately show ?thesis by blast
      qed
    qed
    ultimately show ?thesis by blast
  next
    case False
    with ni have c': "bin_counter b' = ?c" and n': "bin_cnt b' = bin_cnt b + 1"
      and v: "WetlandBin b' (0, ?c) = real (bin_cnt b + 1)"
      using r unfolding w suc by simp_all
    have below: "\<forall>m'. 1 \<le> m' \<and> m' \<le> bin_cnt b + 1 \<longrightarrow> ?q m' < ac"
    proof (intro allI impI)
      fix m' assume m: "1 \<le> m' \<and> m' \<le> bin_cnt b + 1"
      then consider "m' \<le> bin_cnt b" | "m' = bin_cnt b + 1" by linarith
      then show "?q m' < ac"
      proof cases
        case 1
        then show ?thesis using lt m by blast
      next
        case 2
        then show ?thesis using False by simp
      qed
    qed
    have "bins_open_ok ac T b'"
      unfolding bins_open_ok_def c' n' using v below z other by simp
    moreover have "bins_closed_ok ac T b'"
      unfolding bins_closed_ok_def c' using clk other by simp
    ultimately show ?thesis by blast
  qed
qed

lemma bin_step_last:
  assumes op: "bins_open_ok ac T b" and cl: "bins_closed_ok ac T b"
    and st: "bin_step VIC n sea T ac WetBins (n - 1) b = Some b'"
  shows "\<forall>k < bin_counter b'. \<exists>m \<ge> 1.
           WetlandBin b' (0, k) = to_double (real m / real_of_int T) \<and>
           (\<forall>m'. 1 \<le> m' \<and> m' < m \<longrightarrow> to_double (real m' / real_of_int T) < ac) \<and>
           (k + 1 < bin_counter b' \<longrightarrow> ac \<le> WetlandBin b' (0, k))"
proof -
  let ?c = "bin_counter b"
  let ?q = "\<lambda>m. to_double (real m / real_of_int T)"
  note r = bin_step_row0 [OF st]
  have w: "WetlandBin b (0, ?c) = real (bin_cnt b)"
    and lt: "\<And>m'. 1 \<le> m' \<Longrightarrow> m' \<le> bin_cnt b \<Longrightarrow> ?q m' < ac"
    using op unfolding bins_open_ok_def by blast+
  have other: "\<And>k. k \<noteq> ?c \<Longrightarrow> WetlandBin b' (0, k) = WetlandBin b (0, k)"
    using r by blast
  have clk: "\<And>k. k < ?c \<Longrightarrow> \<exists>m \<ge> 1. WetlandBin b (0, k) = ?q m \<and>
               (\<forall>m'. 1 \<le> m' \<and> m' < m \<longrightarrow> ?q m' < ac) \<and> ac \<le> WetlandBin b (0, k)"
    using cl unfolding bins_closed_ok_def by blast
  have suc: "real (bin_cnt b) + 1 = real (bin_cnt b + 1)" by simp
  have c': "bin_counter b' = ?c + 1"
    and v: "WetlandBin b' (0, ?c) = ?q (bin_cnt b + 1)"
    using r unfolding w suc by simp_all
  show ?thesis
    unfolding c'
  proof (intro allI impI)
    fix k assume "k < ?c + 1"
    then consider "k < ?c" | "k = ?c" by linarith
    then show "\<exists>m \<ge> 1. WetlandBin b' (0, k) = ?q m \<and>
           (\<forall>m'. 1 \<le> m' \<and> m' < m \<longrightarrow> ?q m' < ac) \<and>
           (k + 1 < ?c + 1 \<longrightarrow> ac \<le> WetlandBin b' (0, k))"
    proof cases
      case 1
      then show ?thesis using clk [OF 1] other [of k] by simp
    next
      case 2
      have "1 \<le> bin_cnt b + 1" by simp
      moreover have "WetlandBin b' (0, k) = ?q (bin_cnt b + 1)" using v 2 by simp
      moreover have "\<forall>m'. 1 \<le> m' \<and> m' < bin_cnt b + 1 \<longrightarrow> ?q m' < ac"
        using lt by simp
      moreover have "\<not> k + 1 < ?c + 1" using 2 by simp
      ultimately show ?thesis by blast
    qed
  qed
qed

lemma bin_loop_inv:
  assumes "bins_open_ok ac T b" and "bins_closed_ok ac T b"
    and "bin_loop VIC n sea T ac WetBins is b = Some b'"
    and "\<forall>i \<in> set is. i \<noteq> n - 1"
  shows "bins_open_ok ac T b' \<and> bins_closed_ok ac T b'"
  using assms
proof (induction "is" arbitrary: b)
  case Nil
  then show ?case by simp
next
  case (Cons i "is")
  from Cons.prems(3) obtain b1 where
    s: "bin_step VIC n sea T ac WetBins i b = Some b1"
    and l: "bin_loop VIC n sea T ac WetBins is b1 = Some b'"
    by (auto split: option.splits)
  have "i \<noteq> n - 1" using Cons.prems(4) by simp
  from bin_step_inv [OF Cons.prems(1,2) s this]
  have "bins_open_ok ac T b1" "bins_closed_ok ac T b1" by blast+
  then show ?case using l Cons.prems(4) by (intro Cons.IH) simp_all
qed

lemma bin_loop_append:
  "bin_loop VIC n sea T ac WetBins (xs @ ys) b =
     (case bin_loop VIC n sea T ac WetBins xs b of
        None \<Rightarrow> None | Some b1 \<Rightarrow> bin_loop VIC n sea T ac WetBins ys b1)"
  by (induction xs arbitrary: b) (simp_all split: option.splits)

lemma bins0_ok: "bins_open_ok ac T bins0 \<and> bins_closed_ok ac T bins0"
  by (simp add: bins_open_ok_def bins_closed_ok_def bins0_def)

lemma wetland_bins_post:
  assumes w: "wetland_bins VIC n sea T ac WetBins = Some b"
  shows "\<forall>k < bin_counter b. \<exists>m \<ge> 1.
           WetlandBin b (0, k) = to_double (real m / real_of_int T) \<and>
           (\<forall>m'. 1 \<le> m' \<and> m' < m \<longrightarrow> to_double (real m' / real_of_int T) < ac) \<and>
           (k + 1 < bin_counter b \<longrightarrow> ac \<le> WetlandBin b (0, k))"
proof (cases n)
  case 0
  with w have "b = bins0" by (simp add: wetland_bins_def)
  then show ?thesis by (simp add: bins0_def)
next
  case (Suc m)
  have split: "[0 ..< n] = [0 ..< m] @ [n - 1]" using Suc by simp
  from w obtain b1 where
    p: "bin_loop VIC n sea T ac WetBins [0 ..< m] bins0 = Some b1"
    and l: "bin_step VIC n sea T ac WetBins (n - 1) b1 = Some b"
    unfolding wetland_bins_def split bin_loop_append
    by (auto split: option.splits)
  have "\<forall>i \<in> set [0 ..< m]. i \<noteq> n - 1" using Suc by simp
  from bin_loop_inv [OF conjunct1 [OF bins0_ok] conjunct2 [OF bins0_ok] p this]
  have "bins_open_ok ac T b1" "bins_closed_ok ac T b1" by blast+
  from bin_step_last [OF this l] show ?thesis .
qed

lemma wet_bins_pos:
  assumes "0 < wetlandVeg" "wet_bins wetlandVeg = (WetBins, areacriteria)"
  shows "WetBins = max 5 (nat \<lceil>to_float (wetlandVeg / to_float (to_double 0.091))\<rceil>) \<and>
         areacriteria = to_float (wetlandVeg / real WetBins)"
  using assms by (auto simp: wet_bins_def Let_def max_def split: if_splits)

lemma round_half_even_near:
  assumes "of_int m - 1 / 2 < y" "y < of_int m + 1 / 2"
  shows "round_half_even y = m"
proof (cases "of_int m \<le> y")
  case True
  then have "\<lfloor>y\<rfloor> = m" using assms by linarith
  then show ?thesis using assms by (simp add: round_half_even_def Let_def)
next
  case False
  then have "\<lfloor>y\<rfloor> = m - 1" using assms by linarith
  then show ?thesis using assms False by (simp add: round_half_even_def Let_def)
qed

text \<open>
  Rounding at a given input: with \<open>s = 2^e \<le> x < 2 * s\<close> the unit in the last place is
  \<open>s / 2^(p-1)\<close>, and \<open>x\<close> is rounded to the multiple \<open>m\<close> of it that is less than half a
  unit away.
\<close>

lemma round_to_eval:
  assumes s: "s = 2 powr of_int e" and lo: "s \<le> x" and hi: "x < 2 * s"
    and m: "of_int m - 1 / 2 < x / (s / 2 ^ (p - 1))" "x / (s / 2 ^ (p - 1)) < of_int m + 1 / 2"
  shows "round_to p x = of_int m * (s / 2 ^ (p - 1))"
proof -
  define u where "u = s / 2 ^ (p - 1)"
  note m = m [folded u_def]
  have sp: "0 < s" unfolding s by simp
  then have xp: "0 < x" using lo by linarith
  have "2 powr (of_int e + 1) = 2 * s" unfolding s by (simp add: powr_add)
  then have "\<lfloor>log 2 x\<rfloor> = e"
    using floor_log_eq_powr_iff [of x 2 e] xp lo hi s by simp
  moreover have "2 powr (of_int e - real (p - 1)) = u"
    unfolding u_def s by (simp add: powr_diff powr_realpow)
  ultimately show ?thesis
    using xp round_half_even_near [OF m] by (simp add: round_to_def Let_def u_def)
qed

lemma wetland_step_keep:
  "i \<noteq> i' \<Longrightarrow> AREASUM (wetland_step VIC W sea E LB WB i' p) i = AREASUM p i \<and>
                DEMSUM (wetland_step VIC W sea E LB WB i' p) i = DEMSUM p i"
  by (simp add: wetland_step_def Let_def)

lemma wetland_fold_keep:
  "i \<notin> set is \<Longrightarrow> AREASUM (fold (wetland_step VIC W sea E LB WB) is p) i = AREASUM p i \<and>
                   DEMSUM (fold (wetland_step VIC W sea E LB WB) is p) i = DEMSUM p i"
  by (induction "is" arbitrary: p) (simp_all add: wetland_step_keep)

lemma twi_fold_keep:
  "AREASUM (fold (twi_step W LB) is p) = AREASUM p \<and> DEMSUM (fold (twi_step W LB) is p) = DEMSUM p"
  by (induction "is" arbitrary: p) (simp_all add: twi_step_def)

lemma lake_fold4:
  assumes "1 \<le> i" "i \<le> 4"
  shows "DEMSUM (fold (lake_step VIC sea waterVeg Ld 4) [1 ..< 4 + 1] profile0) i = real i * (Ld / 4) \<and>
         AREASUM (fold (lake_step VIC sea waterVeg Ld 4) [1 ..< 4 + 1] profile0) i =
           waterVeg * sqrt (real i * (Ld / 4) / Ld)"
proof -
  from assms consider "i = 1" | "i = 2" | "i = 3" | "i = 4" by linarith
  then show ?thesis
    by cases (simp_all add: lake_step_def Let_def profile0_def upt_conv_Cons)
qed

lemma build_profile_lake:
  assumes "1 \<le> i" "i \<le> 4"
  shows "DEMSUM (build_profile VIC W sea waterVeg ElevRange Ld 4 WetBins) i = real i * (Ld / 4) \<and>
         AREASUM (build_profile VIC W sea waterVeg ElevRange Ld 4 WetBins) i =
           waterVeg * sqrt (DEMSUM (build_profile VIC W sea waterVeg ElevRange Ld 4 WetBins) i / Ld)"
proof -
  have notin: "i \<notin> set [4 + 1 ..< WetBins + 4 + 1]" using assms by simp
  let ?p = "fold (lake_step VIC sea waterVeg Ld 4) [1 ..< 4 + 1] profile0"
  let ?q = "if sea then fold (twi_step W 4) [4 + 1 ..< WetBins + 4 + 1] ?p else ?p"
  have q: "AREASUM ?q = AREASUM ?p \<and> DEMSUM ?q = DEMSUM ?p"
    by (simp add: twi_fold_keep)
  have "AREASUM (build_profile VIC W sea waterVeg ElevRange Ld 4 WetBins) i = AREASUM ?q i \<and>
        DEMSUM (build_profile VIC W sea waterVeg ElevRange Ld 4 WetBins) i = DEMSUM ?q i"
    unfolding build_profile_def Let_def using wetland_fold_keep [OF notin] by blast
  with q lake_fold4 [OF assms] show ?thesis by simp
qed

section \<open>The profile builder at given inputs\<close>

lemma areacriteria_float: "to_float (to_double 0.091) = 12213813 / 134217728"
proof -
  have "to_double 0.091 = 3278620528725721 / 36028797018963968"
    unfolding to_double_def
    by (rule round_to_eval [where e = "-4" and s = "1 / 16" and m = 6557241057451442, THEN trans])
       (simp_all add: powr_minus)
  moreover have "to_float (3278620528725721 / 36028797018963968) = 12213813 / 134217728"
    unfolding to_float_def
    by (rule round_to_eval [where e = "-4" and s = "1 / 16" and m = 12213813, THEN trans])
       (simp_all add: powr_minus)
  ultimately show ?thesis by (simp only:)
qed

lemma wet_bins_eval:
  assumes "0 < w" and "to_float (w / (12213813 / 134217728)) = q" and "nat \<lceil>q\<rceil> = c"
    and "to_float (w / real (if c < 5 then 5 else c)) = a"
  shows "wet_bins w = (if c < 5 then 5 else c, a)"
  unfolding wet_bins_def Let_def areacriteria_float assms(2,3,4) using assms(1) by simp

text \<open>A wetland fraction of \<open>1/2\<close>: six bins with the target \<open>11184811 / 2^27\<close>, just above \<open>1/12\<close>.\<close>

lemma wet_bins_half: "wet_bins (1 / 2) = (6, 11184811 / 134217728)"
proof -
  have q: "to_float ((1 / 2) / (12213813 / 134217728)) = 11522813 / 2097152"
    unfolding to_float_def
    by (rule round_to_eval [where e = "2" and s = "4" and m = 11522813, THEN trans])
       (simp_all add: powr_minus)
  have c: "nat \<lceil>11522813 / 2097152 :: real\<rceil> = 6"
  proof -
    have "\<lceil>11522813 / 2097152 :: real\<rceil> = 6" by (simp add: ceiling_eq_iff)
    then show ?thesis by simp
  qed
  have a: "to_float ((1 / 2) / real (if (6 :: nat) < 5 then 5 else 6)) = 11184811 / 134217728"
    unfolding to_float_def
    by (rule round_to_eval [where e = "-4" and s = "1 / 16" and m = 11184811, THEN trans])
       (simp_all add: powr_minus)
  from wet_bins_eval [OF _ q c a] show ?thesis by simp
qed

text \<open>The wetland fraction \<^verbatim>\<open>3.0f/100.0f\<close>: five bins with a target near \<open>0.006\<close>.\<close>

lemma to_float_3pct: "to_float (3 / 100) = 16106127 / 536870912"
  unfolding to_float_def
  by (rule round_to_eval [where e = "-6" and s = "1 / 64" and m = 16106127, THEN trans])
     (simp_all add: powr_minus)

lemma wet_bins_3pct: "wet_bins (16106127 / 536870912) = (5, 6442451 / 1073741824)"
proof -
  have q: "to_float ((16106127 / 536870912) / (12213813 / 134217728)) = 11061901 / 33554432"
    unfolding to_float_def
    by (rule round_to_eval [where e = "-2" and s = "1 / 4" and m = 11061901, THEN trans])
       (simp_all add: powr_minus)
  have c: "nat \<lceil>11061901 / 33554432 :: real\<rceil> = 1"
  proof -
    have "\<lceil>11061901 / 33554432 :: real\<rceil> = 1" by (simp add: ceiling_eq_iff)
    then show ?thesis by simp
  qed
  have a: "to_float ((16106127 / 536870912) / real (if (1 :: nat) < 5 then 5 else 1)) = 6442451 / 1073741824"
    unfolding to_float_def
    by (rule round_to_eval [where e = "-8" and s = "1 / 256" and m = 12884902, THEN trans])
       (simp_all add: powr_minus)
  from wet_bins_eval [OF _ q c a] show ?thesis by simp
qed



text \<open>
  The wetland fraction \<^verbatim>\<open>637.0f/1000.0f\<close>: the single-precision quotient by the \<^verbatim>\<open>float\<close>
  \<open>0.091\<close> is just above \<open>7\<close>, so there are eight bins, where the exact quotient of \<open>0.637\<close>
  and \<open>0.091\<close> is \<open>7\<close>.
\<close>

lemma wet_bins_637:
  "to_float (637 / 1000) = 10687087 / 16777216 \<and>
   wet_bins (10687087 / 16777216) = (8, 10687087 / 134217728) \<and>
   \<lceil>(637 / 1000 :: real) / 0.091\<rceil> = 7"
proof -
  have w: "to_float (637 / 1000) = 10687087 / 16777216"
    unfolding to_float_def
    by (rule round_to_eval [where e = "-1" and s = "1 / 2" and m = 10687087, THEN trans])
       (simp_all add: powr_minus)
  have q: "to_float ((10687087 / 16777216) / (12213813 / 134217728)) = 14680065 / 2097152"
    unfolding to_float_def
    by (rule round_to_eval [where e = "2" and s = "4" and m = 14680065, THEN trans])
       (simp_all add: powr_minus)
  have c: "nat \<lceil>14680065 / 2097152 :: real\<rceil> = 8"
  proof -
    have "\<lceil>14680065 / 2097152 :: real\<rceil> = 8" by (simp add: ceiling_eq_iff)
    then show ?thesis by simp
  qed
  have a: "to_float ((10687087 / 16777216) / real (if (8 :: nat) < 5 then 5 else 8)) = 10687087 / 134217728"
    unfolding to_float_def
    by (rule round_to_eval [where e = "-4" and s = "1 / 16" and m = 10687087, THEN trans])
       (simp_all add: powr_minus)
  from wet_bins_eval [OF _ q c a] have "wet_bins (10687087 / 16777216) = (8, 10687087 / 134217728)"
    by simp
  moreover have "\<lceil>(637 / 1000 :: real) / 0.091\<rceil> = 7" by simp
  ultimately show ?thesis using w by blast
qed



lemma to_double_twelfth: "to_double (1 / 12) = 6004799503160661 / 72057594037927936"
  unfolding to_double_def
  by (rule round_to_eval [where e = "-4" and s = "1 / 16" and m = 6004799503160661, THEN trans])
     (simp_all add: powr_minus)

lemma to_double_sixth: "to_double (1 / 6) = 6004799503160661 / 36028797018963968"
  unfolding to_double_def
  by (rule round_to_eval [where e = "-3" and s = "1 / 8" and m = 6004799503160661, THEN trans])
     (simp_all add: powr_minus)

lemma to_double_hundredth: "to_double (1 / 100) = 5764607523034235 / 576460752303423488"
  unfolding to_double_def
  by (rule round_to_eval [where e = "-7" and s = "1 / 128" and m = 5764607523034235, THEN trans])
     (simp_all add: powr_minus)

text \<open>Six wetland cells out of twelve: three bins of two cells.\<close>

lemma bins_half:
  "map_option bin_areas (wetland_bins VIC0 6 False 12 (11184811 / 134217728) 6) =
     Some [6004799503160661 / 36028797018963968, 6004799503160661 / 36028797018963968,
           6004799503160661 / 36028797018963968]"
  by (simp add: wetland_bins_def bin_step_def bins0_def VIC0_def Let_def bin_areas_def upt_conv_Cons
      to_double_twelfth to_double_sixth)

lemma bins_half_some: "wetland_bins VIC0 6 False 12 (11184811 / 134217728) 6 \<noteq> None"
  using bins_half by auto

text \<open>Three wetland cells out of a hundred: three bins of one cell.\<close>

lemma bins_3pct:
  "map_option bin_areas (wetland_bins VIC0 3 False 100 (6442451 / 1073741824) 5) =
     Some [5764607523034235 / 576460752303423488, 5764607523034235 / 576460752303423488,
           5764607523034235 / 576460752303423488]"
  by (simp add: wetland_bins_def bin_step_def bins0_def VIC0_def Let_def bin_areas_def upt_conv_Cons
      to_double_hundredth)





text \<open>
  Claim C5.  With a positive water fraction there are exactly \<open>4\<close> lake bins, the lake area
  is \<open>waterVeg * totalVeg * deltax * deltay / 10^6\<close>, the lake depth is
  \<open>7.04 - 0.07 * area\<close> below the area \<open>40.9375\<close> and \<open>4.17\<close> from there on, and in the profile
  at the consistency check the bins \<open>i = 1..4\<close> have \<open>DEMSUM[i] = i * (LakeDepth / 4)\<close> and
  \<open>AREASUM[i] = waterVeg * sqrt (DEMSUM[i] / LakeDepth)\<close>.  With a water fraction of zero
  there is no lake bin and the depth is \<open>0\<close>.
\<close>

theorem lake_bins_profile:
  assumes "lake_bins waterVeg totalVeg deltax deltay = (LakeBins, LakeDepth, LakeArea)"
  shows "(0 < waterVeg \<longrightarrow>
            LakeBins = 4 \<and>
            LakeArea = waterVeg * real_of_int totalVeg * deltax * deltay / 1000000 \<and>
            LakeDepth = (if LakeArea < 40.9375 then 7.04 - 0.07 * LakeArea else 4.17) \<and>
            (\<forall>i. 1 \<le> i \<and> i \<le> 4 \<longrightarrow>
               AREASUM (build_profile VIC W sea waterVeg ElevRange LakeDepth LakeBins WetBins) i =
                 waterVeg * sqrt (DEMSUM (build_profile VIC W sea waterVeg ElevRange LakeDepth LakeBins WetBins) i
                                   / LakeDepth) \<and>
               DEMSUM (build_profile VIC W sea waterVeg ElevRange LakeDepth LakeBins WetBins) i =
                 real i * (LakeDepth / 4))) \<and>
         (waterVeg = 0 \<longrightarrow> LakeBins = 0 \<and> LakeDepth = 0)"
proof (intro conjI impI)
  assume w: "0 < waterVeg"
  define la where "la = waterVeg * real_of_int totalVeg * deltax * deltay / (1000 * 1000)"
  have "lake_bins waterVeg totalVeg deltax deltay =
          (4, (if la < 40.9375 then 7.04 - 0.07 * la else 4.17), la)"
    unfolding lake_bins_def Let_def la_def [symmetric] using w by simp
  then have "(LakeBins, LakeDepth, LakeArea) =
          (4, (if la < 40.9375 then 7.04 - 0.07 * la else 4.17), la)"
    unfolding assms .
  then have eq: "LakeBins = 4" "LakeDepth = (if la < 40.9375 then 7.04 - 0.07 * la else 4.17)"
    "LakeArea = la"
    unfolding prod.inject by blast+
  show lb: "LakeBins = 4" by (rule eq)
  show "LakeArea = waterVeg * real_of_int totalVeg * deltax * deltay / 1000000"
    unfolding eq la_def by simp
  show "LakeDepth = (if LakeArea < 40.9375 then 7.04 - 0.07 * LakeArea else 4.17)"
    unfolding eq ..
  show "\<forall>i. 1 \<le> i \<and> i \<le> 4 \<longrightarrow>
               AREASUM (build_profile VIC W sea waterVeg ElevRange LakeDepth LakeBins WetBins) i =
                 waterVeg * sqrt (DEMSUM (build_profile VIC W sea waterVeg ElevRange LakeDepth LakeBins WetBins) i
                                   / LakeDepth) \<and>
               DEMSUM (build_profile VIC W sea waterVeg ElevRange LakeDepth LakeBins WetBins) i =
                 real i * (LakeDepth / 4)"
    unfolding lb using build_profile_lake by blast
next
  assume "waterVeg = 0"
  with assms show "LakeBins = 0" and "LakeDepth = 0"
    by (simp_all add: lake_bins_def)
qed

theorem lake_bins_profile_witness:
  "lake_bins (1 / 10) 100 1000 1000 = (4, 6.34, 10) \<and>
   DEMSUM (build_profile VIC0 (\<lambda>_. 0) False (1 / 10) 0 6.34 4 5) 2 = 2 * (6.34 / 4) \<and>
   AREASUM (build_profile VIC0 (\<lambda>_. 0) False (1 / 10) 0 6.34 4 5) 2 =
     1 / 10 * sqrt (DEMSUM (build_profile VIC0 (\<lambda>_. 0) False (1 / 10) 0 6.34 4 5) 2 / 6.34)"
proof -
  have l: "lake_bins (1 / 10) 100 1000 1000 = (4, 6.34, 10)"
    by (simp add: lake_bins_def Let_def)
  have p: "(0 :: real) < 1 / 10" by simp
  from lake_bins_profile [OF l, of VIC0 "\<lambda>_. 0" False 0 5] p
  have "\<forall>i. 1 \<le> i \<and> i \<le> 4 \<longrightarrow>
          AREASUM (build_profile VIC0 (\<lambda>_. 0) False (1 / 10) 0 6.34 4 5) i =
            1 / 10 * sqrt (DEMSUM (build_profile VIC0 (\<lambda>_. 0) False (1 / 10) 0 6.34 4 5) i / 6.34) \<and>
          DEMSUM (build_profile VIC0 (\<lambda>_. 0) False (1 / 10) 0 6.34 4 5) i = real i * (6.34 / 4)"
    by blast
  from this [rule_format, of 2] l show ?thesis by simp
qed

text \<open>
  Claim C9, as the code has it.  With a positive wetland fraction the number of wetland
  bins is the ceiling of the single-precision quotient of \<^verbatim>\<open>wetlandVeg\<close> and the \<^verbatim>\<open>float\<close>
  \<open>0.091\<close>, raised to at least \<open>5\<close>, and the target fraction is recomputed as the
  single-precision quotient \<^verbatim>\<open>wetlandVeg / WetBins\<close>.  The loop closes a bin as soon as the
  quotient of its cell count and \<^verbatim>\<open>totalVeg\<close> reaches the target.  So, when the loop stays
  inside \<^verbatim>\<open>WetlandBin\<close>, every closed bin holds the quotient of a count \<open>m\<close> of at least one
  cell, no smaller count has a quotient that reaches the target, and every closed bin
  except the last one holds at least the target.
\<close>

theorem wetland_bins_target:
  assumes "0 < wetlandVeg"
    and "wet_bins wetlandVeg = (WetBins, areacriteria)"
    and "wetland_bins VIC n sea totalVeg areacriteria WetBins = Some b"
  shows "WetBins = max 5 (nat \<lceil>to_float (wetlandVeg / to_float (to_double 0.091))\<rceil>) \<and>
         areacriteria = to_float (wetlandVeg / real WetBins) \<and>
         (\<forall>k < bin_counter b. \<exists>m \<ge> 1.
            WetlandBin b (0, k) = to_double (real m / real_of_int totalVeg) \<and>
            (\<forall>m'. 1 \<le> m' \<and> m' < m \<longrightarrow> to_double (real m' / real_of_int totalVeg) < areacriteria) \<and>
            (k + 1 < bin_counter b \<longrightarrow> areacriteria \<le> WetlandBin b (0, k)))"
  using wet_bins_pos [OF assms(1,2)] wetland_bins_post [OF assms(3)] by blast

theorem wetland_bins_target_witness:
  "wet_bins (1 / 2) = (6, 11184811 / 134217728) \<and>
   map_option bin_areas (wetland_bins VIC0 6 False 12 (11184811 / 134217728) 6) =
     Some [6004799503160661 / 36028797018963968, 6004799503160661 / 36028797018963968,
           6004799503160661 / 36028797018963968] \<and>
   (6 :: nat) = max 5 (nat \<lceil>to_float ((1 / 2) / to_float (to_double 0.091))\<rceil>) \<and>
   (11184811 / 134217728 :: real) = to_float ((1 / 2) / real (6 :: nat))"
proof -
  obtain b where b: "wetland_bins VIC0 6 False 12 (11184811 / 134217728) 6 = Some b"
    using bins_half_some by blast
  have p: "(0 :: real) < 1 / 2" by simp
  from wetland_bins_target [OF p wet_bins_half b]
  have "(6 :: nat) = max 5 (nat \<lceil>to_float ((1 / 2) / to_float (to_double 0.091))\<rceil>) \<and>
        (11184811 / 134217728 :: real) = to_float ((1 / 2) / real (6 :: nat))"
    by blast
  with wet_bins_half bins_half show ?thesis by blast
qed

text \<open>
  The claim as stated bounds every bin but the last by the recomputed fraction.  For three
  wetland cells out of \<open>100\<close> cells the wetland fraction is the \<^verbatim>\<open>float\<close> \<^verbatim>\<open>3.0f/100.0f\<close>, the
  recomputed fraction is \<open>6442451 / 2^30\<close>, about \<open>0.006\<close>, and each of the three closed bins
  holds the \<^verbatim>\<open>double\<close> \<open>1.0/100\<close>, about \<open>0.01\<close>.
\<close>

theorem wetland_bins_exceed_counterexample:
  "to_float (3 / 100) = 16106127 / 536870912 \<and>
   wet_bins (16106127 / 536870912) = (5, 6442451 / 1073741824) \<and>
   map_option bin_areas
     (wetland_bins VIC0 3 False 100 (snd (wet_bins (16106127 / 536870912)))
        (fst (wet_bins (16106127 / 536870912)))) =
     Some [5764607523034235 / 576460752303423488, 5764607523034235 / 576460752303423488,
           5764607523034235 / 576460752303423488] \<and>
   \<not> ((5764607523034235 / 576460752303423488 :: real) \<le> 6442451 / 1073741824)"
  using to_float_3pct wet_bins_3pct bins_3pct by simp






end
